theory Spec2Isabelle
  imports Complex_Main "HOL-Library.List_Lexorder" "HOL-Library.Char_ord"
begin

section \<open>JavaScript numbers\<close>

text \<open>
  The simulation runner \<^verbatim>\<open>run-simulations.js\<close> computes with JavaScript numbers: IEEE 754
  doubles. A number is a real (the value of a finite double) or one of the three special
  values; minus zero is not told apart from zero. Every arithmetic operation gives the
  exact result rounded to the nearest double, ties to even, and an infinity when the
  rounded result is beyond the range (\<open>dbl\<close>). A store into a \<^verbatim>\<open>Float32Array\<close> rounds to
  single precision in the same way (\<open>toFloat32\<close>). The branches the source takes on
  \<^verbatim>\<open>isFinite\<close> are branches of the model.
\<close>

datatype jsnum = Fin real | PosInf | NegInf | NaN

fun isFinite :: "jsnum \<Rightarrow> bool" where
  "isFinite (Fin x) = True"
| "isFinite PosInf = False"
| "isFinite NegInf = False"
| "isFinite NaN = False"

text \<open>Rounding a real to the nearest integer, a tie to the even one.\<close>

definition rne :: "real \<Rightarrow> int" where
  "rne x =
     (let f = \<lfloor>x\<rfloor>; d = x - of_int f
      in if d < 1 / 2 then f else if 1 / 2 < d then f + 1 else if even f then f else f + 1)"

text \<open>
  The nearest double of a real: 53 significant bits, the exponent not below -1022 (so
  that the spacing never goes below \<open>2 ^ -1074\<close>), no bound above.
\<close>

definition dround :: "real \<Rightarrow> real" where
  "dround x =
     (if x = 0 then 0
      else (let e = max \<lfloor>log 2 \<bar>x\<bar>\<rfloor> (- 1022);
                u = 2 powr (of_int e - 52)
            in of_int (rne (x / u)) * u))"

definition dbl :: "real \<Rightarrow> jsnum" where
  "dbl x =
     (let y = dround x
      in if 2 ^ 1024 \<le> y then PosInf else if y \<le> - (2 ^ 1024) then NegInf else Fin y)"

text \<open>The nearest single-precision number: 24 significant bits, exponent not below -126.\<close>

definition fround :: "real \<Rightarrow> real" where
  "fround x =
     (if x = 0 then 0
      else (let e = max \<lfloor>log 2 \<bar>x\<bar>\<rfloor> (- 126);
                u = 2 powr (of_int e - 23)
            in of_int (rne (x / u)) * u))"

definition toFloat32 :: "jsnum \<Rightarrow> jsnum" where
  "toFloat32 v =
     (case v of
        Fin x \<Rightarrow>
          (let y = fround x
           in if 2 ^ 128 \<le> y then PosInf else if y \<le> - (2 ^ 128) then NegInf else Fin y)
      | _ \<Rightarrow> v)"

subsection \<open>The arithmetic operations\<close>

fun jsneg :: "jsnum \<Rightarrow> jsnum" where
  "jsneg (Fin a) = Fin (- a)"
| "jsneg PosInf = NegInf"
| "jsneg NegInf = PosInf"
| "jsneg NaN = NaN"

fun jsadd :: "jsnum \<Rightarrow> jsnum \<Rightarrow> jsnum" where
  "jsadd (Fin a) (Fin b) = dbl (a + b)"
| "jsadd NaN y = NaN"
| "jsadd x NaN = NaN"
| "jsadd PosInf NegInf = NaN"
| "jsadd NegInf PosInf = NaN"
| "jsadd PosInf y = PosInf"
| "jsadd NegInf y = NegInf"
| "jsadd x PosInf = PosInf"
| "jsadd x NegInf = NegInf"

definition jssub :: "jsnum \<Rightarrow> jsnum \<Rightarrow> jsnum" where
  "jssub x y = jsadd x (jsneg y)"

text \<open>The sign of a product or quotient with an infinity; zero times infinity is NaN.\<close>

definition signedInf :: "real \<Rightarrow> jsnum \<Rightarrow> jsnum" where
  "signedInf a i = (if a = 0 then NaN else if 0 < a then i else jsneg i)"

fun jsmul :: "jsnum \<Rightarrow> jsnum \<Rightarrow> jsnum" where
  "jsmul (Fin a) (Fin b) = dbl (a * b)"
| "jsmul NaN y = NaN"
| "jsmul x NaN = NaN"
| "jsmul (Fin a) y = signedInf a y"
| "jsmul x (Fin b) = signedInf b x"
| "jsmul PosInf y = y"
| "jsmul NegInf y = jsneg y"

fun jsdiv :: "jsnum \<Rightarrow> jsnum \<Rightarrow> jsnum" where
  "jsdiv (Fin a) (Fin b) =
     (if b = 0 then (if a = 0 then NaN else if 0 < a then PosInf else NegInf)
      else dbl (a / b))"
| "jsdiv NaN y = NaN"
| "jsdiv x NaN = NaN"
| "jsdiv (Fin a) y = Fin 0"
| "jsdiv x (Fin b) = (if 0 \<le> b then x else jsneg x)"
| "jsdiv x y = NaN"

text \<open>Comparisons: false when an operand is NaN.\<close>

fun jslt :: "jsnum \<Rightarrow> jsnum \<Rightarrow> bool" where
  "jslt (Fin a) (Fin b) = (a < b)"
| "jslt NaN y = False"
| "jslt x NaN = False"
| "jslt PosInf y = False"
| "jslt x NegInf = False"
| "jslt NegInf y = True"
| "jslt x PosInf = True"

fun jsle :: "jsnum \<Rightarrow> jsnum \<Rightarrow> bool" where
  "jsle (Fin a) (Fin b) = (a \<le> b)"
| "jsle NaN y = False"
| "jsle x NaN = False"
| "jsle NegInf y = True"
| "jsle x PosInf = True"
| "jsle PosInf y = False"
| "jsle x NegInf = False"

definition jsle0 :: "jsnum \<Rightarrow> bool" where
  "jsle0 x = jsle x (Fin 0)"

definition clamp :: "real \<Rightarrow> real \<Rightarrow> real \<Rightarrow> real" where
  "clamp x a b = max a (min b x)"

text \<open>A real that is a finite double.\<close>

definition isDouble :: "real \<Rightarrow> bool" where
  "isDouble x = (dround x = x \<and> \<bar>x\<bar> < 2 ^ 1024)"

subsection \<open>Facts about rounding\<close>

lemma rne_of_int: "rne (of_int n) = n"
  by (simp add: rne_def)

lemma rne_bounds: "\<lfloor>x\<rfloor> \<le> rne x \<and> rne x \<le> \<lfloor>x\<rfloor> + 1"
  by (simp add: rne_def Let_def)

lemma rne_mono:
  assumes "x \<le> y"
  shows "rne x \<le> rne y"
proof (cases "\<lfloor>x\<rfloor> = \<lfloor>y\<rfloor>")
  case True
  with assms show ?thesis
    by (auto simp: rne_def Let_def)
next
  case False
  with assms have "\<lfloor>x\<rfloor> < \<lfloor>y\<rfloor>"
    using floor_mono [of x y] by linarith
  then show ?thesis
    using rne_bounds [of x] rne_bounds [of y] by linarith
qed

lemma rne_err: "\<bar>of_int (rne x) - x\<bar> \<le> 1 / 2"
proof -
  have "of_int \<lfloor>x\<rfloor> \<le> x" "x < of_int \<lfloor>x\<rfloor> + 1" by linarith+
  then show ?thesis
    by (auto simp: rne_def Let_def abs_le_iff)
qed

lemma log2_floor_bounds:
  assumes "0 < x"
  shows "2 powr of_int \<lfloor>log 2 x\<rfloor> \<le> x" "x < 2 powr of_int (\<lfloor>log 2 x\<rfloor> + 1)"
  using floor_log_eq_powr_iff [of x 2 "\<lfloor>log 2 x\<rfloor>"] assms by simp_all

lemma two_powr_scale: "of_int (2 ^ k) * 2 powr (r - real k) = (2::real) powr r"
proof -
  have "of_int (2 ^ k) = (2::real) powr real k"
    by (simp add: powr_realpow)
  then show ?thesis
    by (simp add: powr_add [symmetric])
qed

lemma two_powr_unscale: "2 powr r / 2 powr (r - real k) = (of_int (2 ^ k) :: real)"
proof -
  have "2 powr r / 2 powr (r - real k) = (2::real) powr real k"
    by (simp add: powr_diff [symmetric])
  then show ?thesis
    by (simp add: powr_realpow)
qed

text \<open>The spacing of the doubles around a real.\<close>

definition dulp :: "real \<Rightarrow> real" where
  "dulp x = 2 powr (of_int (max \<lfloor>log 2 \<bar>x\<bar>\<rfloor> (- 1022)) - 52)"

lemma dulp_pos: "0 < dulp x"
  by (simp add: dulp_def)

lemma dround_eq: "x \<noteq> 0 \<Longrightarrow> dround x = of_int (rne (x / dulp x)) * dulp x"
  by (simp add: dround_def dulp_def Let_def)

lemma dround_0: "dround 0 = 0"
  by (simp add: dround_def)

lemma dround_abs_err: "\<bar>dround x - x\<bar> \<le> dulp x / 2"
proof (cases "x = 0")
  case True
  then show ?thesis using dulp_pos [of 0] by (simp add: dround_0)
next
  case False
  have "\<bar>dround x - x\<bar> = \<bar>of_int (rne (x / dulp x)) - x / dulp x\<bar> * dulp x"
  proof -
    have "dround x - x = (of_int (rne (x / dulp x)) - x / dulp x) * dulp x"
      using dulp_pos [of x] by (simp add: dround_eq [OF False] left_diff_distrib)
    then show ?thesis
      using dulp_pos [of x] by (simp add: abs_mult)
  qed
  also have "\<dots> \<le> (1 / 2) * dulp x"
    using rne_err [of "x / dulp x"] dulp_pos [of x] by (intro mult_right_mono) simp_all
  finally show ?thesis by simp
qed

text \<open>The relative error bound \<open>2 ^ -53\<close> in the normal range, the absolute one below it.\<close>

lemma dulp_normal:
  assumes "2 powr (- 1022) \<le> \<bar>x\<bar>"
  shows "dulp x \<le> \<bar>x\<bar> / 2 ^ 52"
proof -
  have pos: "0 < \<bar>x\<bar>" using assms by (smt (verit) powr_gt_zero)
  have "log 2 (2 powr (- 1022)) \<le> log 2 \<bar>x\<bar>"
    using assms pos by (simp del: log_powr_cancel)
  then have "- 1022 \<le> \<lfloor>log 2 \<bar>x\<bar>\<rfloor>"
    by (simp add: le_floor_iff)
  then have "max \<lfloor>log 2 \<bar>x\<bar>\<rfloor> (- 1022) = \<lfloor>log 2 \<bar>x\<bar>\<rfloor>"
    by (rule max_absorb1)
  then have "dulp x = 2 powr (of_int \<lfloor>log 2 \<bar>x\<bar>\<rfloor> - 52)"
    by (simp only: dulp_def)
  also have "\<dots> = 2 powr of_int \<lfloor>log 2 \<bar>x\<bar>\<rfloor> / 2 powr 52"
    by (simp add: powr_diff)
  also have "\<dots> \<le> \<bar>x\<bar> / 2 powr 52"
    using log2_floor_bounds(1) [OF pos] by (intro divide_right_mono) simp_all
  finally show ?thesis by simp
qed

lemma dulp_lower: "2 powr (- 1074) \<le> dulp x"
  unfolding dulp_def by (intro powr_mono) simp_all

lemma dulp_subnormal:
  assumes "\<bar>x\<bar> < 2 powr (- 1022)" and "x \<noteq> 0"
  shows "dulp x = 2 powr (- 1074)"
proof -
  from assms(2) have pos: "0 < \<bar>x\<bar>" by simp
  have "\<lfloor>log 2 \<bar>x\<bar>\<rfloor> < - 1022"
  proof -
    have "log 2 \<bar>x\<bar> < log 2 (2 powr (- 1022))"
      using assms pos by (simp del: log_powr_cancel)
    then have "log 2 \<bar>x\<bar> < - 1022" by simp
    then show ?thesis by (simp add: floor_less_iff)
  qed
  then have "max \<lfloor>log 2 \<bar>x\<bar>\<rfloor> (- 1022) = - 1022"
    by (intro max_absorb2) simp
  then show ?thesis by (simp add: dulp_def)
qed

lemma dround_rel_err:
  assumes "2 powr (- 1022) \<le> \<bar>x\<bar>"
  shows "\<bar>dround x - x\<bar> \<le> \<bar>x\<bar> / 2 ^ 53"
proof -
  have "\<bar>dround x - x\<bar> \<le> dulp x / 2" by (rule dround_abs_err)
  also have "\<dots> \<le> (\<bar>x\<bar> / 2 ^ 52) / 2"
    using dulp_normal [OF assms] by simp
  finally show ?thesis by simp
qed

lemma dround_err:
  "\<bar>dround x - x\<bar> \<le> \<bar>x\<bar> / 2 ^ 53 + 2 powr (- 1075)"
proof (cases "2 powr (- 1022) \<le> \<bar>x\<bar>")
  case True
  from dround_rel_err [OF this] show ?thesis
    by (smt (verit) powr_ge_zero)
next
  case False
  show ?thesis
  proof (cases "x = 0")
    case True
    then show ?thesis by (simp add: dround_0)
  next
    case nz: False
    from False have "dulp x = 2 powr (- 1074)" by (intro dulp_subnormal nz) simp
    with dround_abs_err [of x] have "\<bar>dround x - x\<bar> \<le> 2 powr (- 1074) / 2" by simp
    also have "2 powr (- 1074) / 2 = (2::real) powr (- 1075)"
      using powr_diff [of "2::real" "- 1074" 1] by simp
    finally show ?thesis by (smt (verit) divide_nonneg_nonneg abs_ge_zero zero_le_power)
  qed
qed

text \<open>Numbers of the form \<open>n * 2 ^ j\<close> with fewer than 53 bits in \<open>n\<close> are doubles.\<close>

lemma dround_repr:
  assumes n: "\<bar>n\<bar> < 2 ^ 53" and j: "- 1074 \<le> j"
  shows "dround (of_int n * 2 powr of_int j) = of_int n * 2 powr of_int j"
proof (cases "n = 0")
  case True
  then show ?thesis by (simp add: dround_0)
next
  case False
  define x :: real where "x = of_int n * 2 powr of_int j"
  have xn: "x \<noteq> 0" using False by (simp add: x_def)
  have ax: "\<bar>x\<bar> = of_int \<bar>n\<bar> * 2 powr of_int j"
    by (simp add: x_def abs_mult)
  define L where "L = \<lfloor>log 2 \<bar>x\<bar>\<rfloor>"
  have "of_int \<bar>n\<bar> < (2::real) ^ 53"
    using n by (metis of_int_less_iff of_int_numeral of_int_power)
  then have "\<bar>x\<bar> < 2 ^ 53 * 2 powr of_int j"
    unfolding ax by (intro mult_strict_right_mono) simp_all
  also have "(2::real) ^ 53 * 2 powr of_int j = 2 powr (of_int (53 + j))"
    by (simp add: powr_add powr_realpow [symmetric])
  finally have up: "\<bar>x\<bar> < 2 powr (of_int (53 + j))" .
  have "2 powr of_int L \<le> \<bar>x\<bar>"
    unfolding L_def using xn by (intro log2_floor_bounds) simp
  then have "2 powr of_int L < (2::real) powr (of_int (53 + j))"
    using up by (rule le_less_trans)
  then have "of_int L < (of_int (53 + j) :: real)"
    by (subst (asm) powr_less_cancel_iff) simp_all
  then have L: "L \<le> 52 + j" by simp
  define em where "em = max L (- 1022)"
  define k where "k = j + 52 - em"
  have k: "0 \<le> k" using L j by (simp add: k_def em_def)
  have du: "dulp x = 2 powr (of_int em - 52)"
    by (simp add: dulp_def em_def L_def)
  have pk: "(2::real) powr of_int k = of_int (2 ^ nat k)"
    using k by (simp add: powr_real_of_int)
  have "x / dulp x = x / 2 powr (of_int em - 52)"
    by (simp only: du)
  also have "\<dots> = of_int n * (2 powr of_int j / 2 powr (of_int em - 52))"
    by (simp add: x_def)
  also have "2 powr of_int j / 2 powr (of_int em - 52) = (2::real) powr of_int k"
  proof -
    have "of_int j - (of_int em - 52) = (of_int k :: real)" by (simp add: k_def)
    then show ?thesis by (simp add: powr_diff [symmetric])
  qed
  finally have q: "x / dulp x = of_int (n * 2 ^ nat k)"
    by (simp add: pk)
  have "dround x = of_int (rne (x / dulp x)) * dulp x"
    by (rule dround_eq [OF xn])
  also have "\<dots> = of_int (n * 2 ^ nat k) * dulp x"
    by (simp only: q rne_of_int)
  also have "\<dots> = of_int n * (2 powr of_int k * 2 powr (of_int em - 52))"
    by (simp only: du pk [symmetric] of_int_mult mult.assoc)
  also have "2 powr of_int k * 2 powr (of_int em - 52) = (2::real) powr of_int j"
  proof -
    have "of_int k + (of_int em - 52) = (of_int j :: real)" by (simp add: k_def)
    then show ?thesis by (simp add: powr_add [symmetric])
  qed
  finally show ?thesis by (simp add: x_def)
qed

lemma dround_of_int:
  assumes "\<bar>n\<bar> < 2 ^ 53"
  shows "dround (of_int n) = of_int n"
  using dround_repr [OF assms, of 0] by simp

text \<open>Every rounded value is a multiple of \<open>2 ^ -1074\<close>.\<close>

lemma dround_grid: "\<exists>m::int. dround x = of_int m * 2 powr (- 1074)"
proof (cases "x = 0")
  case True
  then show ?thesis by (auto simp: dround_0 intro: exI [of _ 0])
next
  case False
  define em where "em = max \<lfloor>log 2 \<bar>x\<bar>\<rfloor> (- 1022)"
  have em: "- 1022 \<le> em" by (simp add: em_def)
  define k where "k = em + 1022"
  have k: "0 \<le> k" using em by (simp add: k_def)
  have "dulp x = 2 powr (of_int em - 52)" by (simp add: dulp_def em_def)
  also have "of_int em - 52 = of_int k + (- 1074 :: real)" by (simp add: k_def)
  also have "2 powr (of_int k + (- 1074 :: real)) = 2 powr of_int k * 2 powr (- 1074)"
    by (rule powr_add)
  also have "(2::real) powr of_int k = of_int (2 ^ nat k)"
    using k by (simp add: powr_real_of_int)
  finally have "dround x = of_int (rne (x / dulp x) * 2 ^ nat k) * 2 powr (- 1074)"
    by (simp add: dround_eq [OF False])
  then show ?thesis by blast
qed

lemma grid_subnormal_exact:
  assumes "x = of_int m * 2 powr (- 1074)" and "\<bar>x\<bar> < 2 powr (- 1022)"
  shows "dround x = x"
proof -
  have "of_int \<bar>m\<bar> * 2 powr (- 1074) < (2::real) powr (- 1022)"
    using assms by (simp add: abs_mult)
  then have "of_int \<bar>m\<bar> < (2::real) powr (- 1022) / 2 powr (- 1074)"
    by (simp add: pos_less_divide_eq)
  also have "(2::real) powr (- 1022) / 2 powr (- 1074) = 2 powr 52"
    by (simp add: powr_diff [symmetric])
  also have "\<dots> = 2 ^ 52" by simp
  finally have "of_int \<bar>m\<bar> < (of_int (2 ^ 52) :: real)" by simp
  then have "\<bar>m\<bar> < 2 ^ 52" by (simp only: of_int_less_iff)
  then have "\<bar>m\<bar> < 2 ^ 53" by simp
  from dround_repr [OF this, of "- 1074"] assms(1) show ?thesis by simp
qed

text \<open>
  Sums and integer multiples of doubles are on the grid, so they are exact below the
  normal range; with the relative bound above it, such an operation always has relative
  error at most \<open>2 ^ -53\<close>.
\<close>

lemma isDouble_grid:
  assumes "isDouble x"
  shows "\<exists>m::int. x = of_int m * 2 powr (- 1074)"
  using dround_grid [of x] assms by (simp add: isDouble_def)

lemma dround_sum_rel:
  assumes "isDouble a" and "isDouble b"
  shows "\<bar>dround (a + b) - (a + b)\<bar> \<le> \<bar>a + b\<bar> / 2 ^ 53"
proof (cases "2 powr (- 1022) \<le> \<bar>a + b\<bar>")
  case True
  then show ?thesis by (rule dround_rel_err)
next
  case False
  from isDouble_grid [OF assms(1)] isDouble_grid [OF assms(2)]
  obtain m n :: int where "a = of_int m * 2 powr (- 1074)" "b = of_int n * 2 powr (- 1074)"
    by blast
  then have "a + b = of_int (m + n) * 2 powr (- 1074)"
    by (simp add: distrib_right)
  from grid_subnormal_exact [OF this] False have "dround (a + b) = a + b" by simp
  then show ?thesis by simp
qed

lemma dround_int_mult_rel:
  assumes "isDouble a"
  shows "\<bar>dround (of_int c * a) - of_int c * a\<bar> \<le> \<bar>of_int c * a\<bar> / 2 ^ 53"
proof (cases "2 powr (- 1022) \<le> \<bar>of_int c * a\<bar>")
  case True
  then show ?thesis by (rule dround_rel_err)
next
  case False
  from isDouble_grid [OF assms] obtain m :: int where "a = of_int m * 2 powr (- 1074)"
    by blast
  then have "of_int c * a = of_int (c * m) * 2 powr (- 1074)"
    by simp
  from grid_subnormal_exact [OF this] False have "dround (of_int c * a) = of_int c * a" by simp
  then show ?thesis by simp
qed


lemma dbl_Fin:
  assumes "\<bar>dround x\<bar> < 2 ^ 1024"
  shows "dbl x = Fin (dround x)"
  using assms by (simp add: dbl_def Let_def abs_less_iff)

lemma dbl_finite_iff: "isFinite (dbl x) \<longleftrightarrow> \<bar>dround x\<bar> < 2 ^ 1024"
  by (auto simp: dbl_def Let_def abs_less_iff)

lemma dbl_of_int:
  assumes "\<bar>n\<bar> < 2 ^ 53"
  shows "dbl (of_int n) = Fin (of_int n)"
proof -
  have "\<bar>of_int n :: real\<bar> < 2 ^ 53"
    using assms by (metis of_int_abs of_int_less_iff of_int_numeral of_int_power)
  also have "(2::real) ^ 53 < 2 ^ 1024" by simp
  finally show ?thesis
    using dround_of_int [OF assms] by (simp add: dbl_Fin)
qed

lemma dbl_0: "dbl 0 = Fin 0"
  using dbl_of_int [of 0] by simp

lemma dbl_1: "dbl 1 = Fin 1"
  using dbl_of_int [of 1] by simp

lemma dbl_numeral:
  assumes "(numeral k :: int) < 2 ^ 53"
  shows "dbl (numeral k) = Fin (numeral k)"
  using dbl_of_int [of "numeral k"] assms by simp

lemma dbl_neg_numeral:
  assumes "(numeral k :: int) < 2 ^ 53"
  shows "dbl (- numeral k) = Fin (- numeral k)"
  using dbl_of_int [of "- numeral k"] assms by simp

section \<open>Partisan pairs\<close>

record pair =
  D :: jsnum
  R :: jsnum

text \<open>
  \<^verbatim>\<open>normalizePair(D, R)\<close>: the arguments are the values of \<^verbatim>\<open>Number(D)\<close> and
  \<^verbatim>\<open>Number(R)\<close>; the shares are \<^verbatim>\<open>100 * d / s\<close>, the product first.
\<close>

definition normalizePair :: "jsnum \<Rightarrow> jsnum \<Rightarrow> pair" where
  "normalizePair d r =
     (let s = jsadd d r
      in if \<not> isFinite s \<or> jsle0 s then \<lparr>D = Fin 50, R = Fin 50\<rparr>
         else \<lparr>D = jsdiv (jsmul (Fin 100) d) s, R = jsdiv (jsmul (Fin 100) r) s\<rparr>)"

definition marginRD :: "pair \<Rightarrow> jsnum" where
  "marginRD p = jssub (R p) (D p)"

lemma jsadd_Fin_D: "jsadd d r = Fin s \<Longrightarrow> \<exists>dv rv. d = Fin dv \<and> r = Fin rv"
  by (cases d; cases r) auto

subsection \<open>The error of a rounded quotient of a rounded product by a rounded sum\<close>

lemma eta_small: "(2::real) powr (- 1075) \<le> 1 / 10 ^ 16"
proof -
  have "(2::real) powr (- 1075) \<le> 2 powr (- 60)"
    by (intro powr_mono) simp_all
  also have "(2::real) powr (- 60) = 1 / 2 ^ 60"
    by (simp add: powr_minus_divide)
  also have "\<dots> \<le> 1 / 10 ^ 16" by (intro divide_left_mono) simp_all
  finally show ?thesis .
qed

lemma rel_bounds:
  fixes x y :: real
  assumes "\<bar>y - x\<bar> \<le> x / 2 ^ 53"
  shows "x * (1 - 1 / 2 ^ 53) \<le> y" "y \<le> x * (1 + 1 / 2 ^ 53)"
proof -
  from assms have "y - x \<le> x / 2 ^ 53" "- (y - x) \<le> x / 2 ^ 53"
    by (simp_all only: abs_le_iff)
  then show "x * (1 - 1 / 2 ^ 53) \<le> y" "y \<le> x * (1 + 1 / 2 ^ 53)"
    by (simp_all only: right_diff_distrib distrib_left mult_1_right times_divide_eq_right)
qed

lemma share_err:
  fixes P S p s :: real
  assumes P: "0 \<le> P" and S: "0 < S" and PS: "P \<le> 100 * S"
    and p: "\<bar>p - P\<bar> \<le> P / 2 ^ 53" and s: "\<bar>s - S\<bar> \<le> S / 2 ^ 53" and s0: "0 < s"
  shows "\<bar>dround (p / s) - P / S\<bar> \<le> 4 / 10 ^ 14"
proof -
  define u :: real where "u = 1 / 2 ^ 53"
  define t where "t = P / S"
  define q where "q = p / s"
  have t: "0 \<le> t" "t \<le> 100"
    using P S PS by (simp_all add: t_def divide_le_eq)
  have pb: "P * (1 - u) \<le> p" "p \<le> P * (1 + u)"
    unfolding u_def using rel_bounds [OF p] by simp_all
  have sb: "S * (1 - u) \<le> s" "s \<le> S * (1 + u)"
    unfolding u_def using rel_bounds [OF s] by simp_all
  have u1: "0 < 1 - u" "0 < 1 + u" by (simp_all add: u_def)
  have "0 \<le> P * (1 - u)" using P u1 by (intro mult_nonneg_nonneg) simp_all
  then have p0: "0 \<le> p" using pb(1) by linarith
  have "0 \<le> P * (1 + u)" using P u1 by (intro mult_nonneg_nonneg) simp_all
  moreover have "0 < S * (1 - u)" using S u1 by (intro mult_pos_pos)
  ultimately have "p / s \<le> (P * (1 + u)) / (S * (1 - u))"
    using pb(2) sb(1) by (intro frac_le)
  then have q_up: "q \<le> t * ((1 + u) / (1 - u))"
    by (simp only: times_divide_times_eq q_def t_def)
  have "(P * (1 - u)) / (S * (1 + u)) \<le> p / s"
    using pb(1) sb(2) p0 s0 by (intro frac_le)
  then have q_lo: "t * ((1 - u) / (1 + u)) \<le> q"
    by (simp only: times_divide_times_eq q_def t_def)
  have q0: "0 \<le> q" using p0 s0 by (simp add: q_def)
  have "\<bar>dround q - q\<bar> \<le> \<bar>q\<bar> / 2 ^ 53 + 2 powr (- 1075)" by (rule dround_err)
  then have aq: "\<bar>dround q - q\<bar> \<le> q * u + 1 / 10 ^ 16"
    using q0 eta_small by (simp add: u_def)
  have c_up: "((1 + u) / (1 - u)) * (1 + u) \<le> 1 + 7 / 2 * u" by (simp add: u_def)
  have c_lo: "1 - 7 / 2 * u \<le> ((1 - u) / (1 + u)) * (1 - u)" by (simp add: u_def)
  have "dround q \<le> q * (1 + u) + 1 / 10 ^ 16"
    using aq by (simp add: abs_le_iff algebra_simps)
  also have "q * (1 + u) \<le> (t * ((1 + u) / (1 - u))) * (1 + u)"
    using q_up u1 by (intro mult_right_mono) simp_all
  also have "\<dots> = t * (((1 + u) / (1 - u)) * (1 + u))" by simp
  also have "\<dots> \<le> t * (1 + 7 / 2 * u)"
    using c_up t(1) by (intro mult_left_mono) simp_all
  also have "\<dots> = t + t * (7 / 2 * u)" by (simp add: algebra_simps)
  also have "t * (7 / 2 * u) \<le> 100 * (7 / 2 * u)"
    using t(2) by (intro mult_right_mono) (simp_all add: u_def)
  finally have up: "dround q - t \<le> 100 * (7 / 2 * u) + 1 / 10 ^ 16" by simp
  have "t - t * (7 / 2 * u) = t * (1 - 7 / 2 * u)" by (simp add: algebra_simps)
  also have "\<dots> \<le> t * (((1 - u) / (1 + u)) * (1 - u))"
    using c_lo t(1) by (intro mult_left_mono) simp_all
  also have "\<dots> = (t * ((1 - u) / (1 + u))) * (1 - u)" by simp
  also have "\<dots> \<le> q * (1 - u)"
    using q_lo u1 by (intro mult_right_mono) simp_all
  also have "\<dots> \<le> dround q + 1 / 10 ^ 16"
    using aq by (simp add: abs_le_iff algebra_simps)
  finally have "t - dround q \<le> t * (7 / 2 * u) + 1 / 10 ^ 16" by simp
  moreover have "t * (7 / 2 * u) \<le> 100 * (7 / 2 * u)"
    using t(2) by (intro mult_right_mono) (simp_all add: u_def)
  ultimately have lo: "t - dround q \<le> 100 * (7 / 2 * u) + 1 / 10 ^ 16" by simp
  have "100 * (7 / 2 * u) + 1 / 10 ^ 16 \<le> 4 / 10 ^ 14" by (simp add: u_def)
  with up lo have "dround q - t \<le> 4 / 10 ^ 14" "- (dround q - t) \<le> 4 / 10 ^ 14"
    by linarith+
  then have "\<bar>dround q - t\<bar> \<le> 4 / 10 ^ 14" by (simp only: abs_le_iff)
  then show ?thesis by (simp only: q_def t_def)
qed

text \<open>Rounding gives a double: rounding twice changes nothing.\<close>

lemma dround_idem: "dround (dround x) = dround x"
proof (cases "x = 0")
  case True
  then show ?thesis by (simp add: dround_0)
next
  case False
  define L where "L = \<lfloor>log 2 \<bar>x\<bar>\<rfloor>"
  define em where "em = max L (- 1022)"
  define n where "n = rne (x / dulp x)"
  have du: "dulp x = 2 powr (of_int (em - 52))"
    by (simp add: dulp_def em_def L_def)
  have dr: "dround x = of_int n * 2 powr (of_int (em - 52))"
    using dround_eq [OF False] by (simp only: n_def du)
  have "\<bar>x\<bar> < 2 powr of_int (L + 1)"
    unfolding L_def using False by (intro log2_floor_bounds) simp
  also have "(2::real) powr of_int (L + 1) \<le> 2 powr of_int (em + 1)"
    by (intro powr_mono) (simp_all add: em_def)
  finally have ax: "\<bar>x\<bar> < 2 powr of_int (em + 1)" .
  have "\<bar>x / dulp x\<bar> = \<bar>x\<bar> / dulp x"
    using dulp_pos [of x] by (simp add: abs_divide)
  also have "\<dots> < 2 powr of_int (em + 1) / dulp x"
    using ax dulp_pos [of x] by (intro divide_strict_right_mono) simp_all
  also have "\<dots> = 2 powr 53"
  proof -
    have "of_int (em + 1) - of_int (em - 52) = (53 :: real)" by simp
    then show ?thesis unfolding du by (simp only: powr_diff [symmetric])
  qed
  also have "(2::real) powr 53 = 2 ^ 53" by simp
  finally have q: "\<bar>x / dulp x\<bar> < 2 ^ 53" .
  from q have "x / dulp x < 2 ^ 53" "- (2 ^ 53) < x / dulp x"
    by (simp_all only: abs_less_iff minus_less_iff)
  then have b1: "x / dulp x \<le> of_int (2 ^ 53)" and b2: "of_int (- (2 ^ 53)) \<le> x / dulp x"
    by simp_all
  have "rne (x / dulp x) \<le> rne (of_int (2 ^ 53))"
      "rne (of_int (- (2 ^ 53))) \<le> rne (x / dulp x)"
    by (rule rne_mono [OF b1], rule rne_mono [OF b2])
  then have nb: "n \<le> 2 ^ 53" "- (2 ^ 53) \<le> n"
    by (simp_all only: rne_of_int n_def)
  have em: "- 1074 \<le> em - 52" by (simp add: em_def)
  consider "\<bar>n\<bar> < 2 ^ 53" | "n = 2 ^ 53" | "n = - (2 ^ 53)"
    using nb by linarith
  then show ?thesis
  proof cases
    case 1
    show ?thesis unfolding dr by (rule dround_repr [OF 1 em])
  next
    case 2
    have "(2::real) powr of_int (em - 51) = 2 powr (1 + of_int (em - 52))" by simp
    also have "\<dots> = 2 * 2 powr of_int (em - 52)" by (simp only: powr_add powr_one)
    finally have e: "of_int (2 ^ 52) * (2::real) powr of_int (em - 51) = of_int (2 ^ 53) * 2 powr of_int (em - 52)"
      by simp
    have "dround (of_int (2 ^ 52) * 2 powr of_int (em - 51)) = of_int (2 ^ 52) * 2 powr of_int (em - 51)"
      using em by (intro dround_repr) simp_all
    then show ?thesis unfolding dr 2 by (simp only: e)
  next
    case 3
    have "(2::real) powr of_int (em - 51) = 2 powr (1 + of_int (em - 52))" by simp
    also have "\<dots> = 2 * 2 powr of_int (em - 52)" by (simp only: powr_add powr_one)
    finally have e: "of_int (- (2 ^ 52)) * (2::real) powr of_int (em - 51) = of_int (- (2 ^ 53)) * 2 powr of_int (em - 52)"
      by simp
    have "dround (of_int (- (2 ^ 52)) * 2 powr of_int (em - 51)) = of_int (- (2 ^ 52)) * 2 powr of_int (em - 51)"
      using em by (intro dround_repr) simp_all
    then show ?thesis unfolding dr 3 by (simp only: e)
  qed
qed

lemma dbl_FinD:
  assumes "dbl x = Fin y"
  shows "y = dround x" "\<bar>y\<bar> < 2 ^ 1024" "isDouble y"
proof -
  from assms show y: "y = dround x"
    by (simp add: dbl_def Let_def split: if_splits)
  from assms show b: "\<bar>y\<bar> < 2 ^ 1024"
    by (simp add: dbl_def Let_def abs_less_iff split: if_splits)
  from y b show "isDouble y" by (simp add: isDouble_def dround_idem)
qed


lemma isDouble_of_int: "\<bar>n\<bar> < 2 ^ 53 \<Longrightarrow> isDouble (of_int n)"
  using dbl_of_int [of n] dbl_FinD(3) by blast

lemma isDouble_0: "isDouble 0"
  using isDouble_of_int [of 0] by simp

lemma isDouble_1: "isDouble 1"
  using isDouble_of_int [of 1] by simp

lemma isDouble_numeral: "(numeral k :: int) < 2 ^ 53 \<Longrightarrow> isDouble (numeral k)"
  using isDouble_of_int [of "numeral k"] by simp

lemma isDouble_neg_numeral: "(numeral k :: int) < 2 ^ 53 \<Longrightarrow> isDouble (- numeral k)"
  using isDouble_of_int [of "- numeral k"] by simp

lemma normalizePair_degenerate:
  assumes "\<not> isFinite (jsadd d r) \<or> jsle0 (jsadd d r)"
  shows "normalizePair d r = \<lparr>D = Fin 50, R = Fin 50\<rparr>"
  using assms by (auto simp: normalizePair_def Let_def)

lemma normalizePair_regular:
  assumes "jsadd d r = Fin s" and "0 < s"
  shows "normalizePair d r =
           \<lparr>D = jsdiv (jsmul (Fin 100) d) (Fin s), R = jsdiv (jsmul (Fin 100) r) (Fin s)\<rparr>"
  using assms by (simp add: normalizePair_def Let_def jsle0_def)

lemma share_value:
  assumes dv: "isDouble dv" "0 \<le> dv" and rv: "isDouble rv" "0 \<le> rv"
    and s: "jsadd (Fin dv) (Fin rv) = Fin s" "0 < s"
    and f: "isFinite (jsmul (Fin 100) (Fin dv))"
  shows "\<exists>a. jsdiv (jsmul (Fin 100) (Fin dv)) (Fin s) = Fin a \<and>
             \<bar>a - 100 * dv / (dv + rv)\<bar> \<le> 4 / 10 ^ 14"
proof -
  define S where "S = dv + rv"
  define P where "P = 100 * dv"
  have sd: "s = dround S" using dbl_FinD(1) [of S s] s(1) by (simp add: S_def)
  have S0: "0 \<le> S" using dv(2) rv(2) by (simp add: S_def)
  have "S \<noteq> 0" using s(2) sd by (auto simp: dround_0)
  with S0 have Spos: "0 < S" by simp
  have se: "\<bar>s - S\<bar> \<le> S / 2 ^ 53"
    using dround_sum_rel [OF dv(1) rv(1)] S0 by (simp add: sd S_def)
  obtain p where p: "dbl P = Fin p"
    using f by (cases "dbl P") (simp_all add: P_def)
  have pd: "p = dround P" by (rule dbl_FinD(1) [OF p])
  have P0: "0 \<le> P" using dv(2) by (simp add: P_def)
  have "\<bar>dround (of_int 100 * dv) - of_int 100 * dv\<bar> \<le> \<bar>of_int 100 * dv\<bar> / 2 ^ 53"
    by (rule dround_int_mult_rel [OF dv(1)])
  then have pe: "\<bar>p - P\<bar> \<le> P / 2 ^ 53"
    using P0 by (simp add: pd P_def)
  have PS: "P \<le> 100 * S" using rv(2) by (simp add: P_def S_def)
  have err: "\<bar>dround (p / s) - P / S\<bar> \<le> 4 / 10 ^ 14"
    by (rule share_err [OF P0 Spos PS pe se s(2)])
  have "P / S \<le> 100" using PS Spos by (simp add: divide_le_eq)
  moreover have "0 \<le> P / S" using P0 Spos by simp
  moreover have "(4::real) / 10 ^ 14 \<le> 1" by simp
  moreover from err have "dround (p / s) - P / S \<le> 4 / 10 ^ 14"
      "- (dround (p / s) - P / S) \<le> 4 / 10 ^ 14"
    by (simp_all only: abs_le_iff)
  ultimately have "dround (p / s) \<le> 101" "- dround (p / s) \<le> 101" by linarith+
  then have "\<bar>dround (p / s)\<bar> \<le> 101" by (simp only: abs_le_iff)
  also have "(101::real) < 2 ^ 1024" by simp
  finally have "dbl (p / s) = Fin (dround (p / s))" by (rule dbl_Fin)
  then have "jsdiv (jsmul (Fin 100) (Fin dv)) (Fin s) = Fin (dround (p / s))"
    using p s(2) by (simp add: P_def)
  with err show ?thesis by (auto simp: P_def S_def)
qed

text \<open>
  C5. For non-negative numbers \<open>D\<close>, \<open>R\<close> whose sum as computed is finite and strictly
  positive and whose products by 100 are finite, \<open>normalizePair\<close> returns two finite
  shares, each within \<open>4 \<times> 10\<^sup>-\<^sup>1\<^sup>4\<close> of \<open>100 x / (D + R)\<close>, so that they add up to 100 within
  \<open>8 \<times> 10\<^sup>-\<^sup>1\<^sup>4\<close>. When the sum is finite and positive and the product \<open>100 D\<close> overflows,
  the share of \<open>D\<close> is \<open>Infinity\<close>. For every input whose sum is not finite or is at most
  0 it returns exactly 50 and 50.
\<close>

theorem normalizePair_spec:
  "(isDouble dv \<and> isDouble rv \<and> 0 \<le> dv \<and> 0 \<le> rv \<and>
    jsadd (Fin dv) (Fin rv) = Fin s \<and> 0 < s \<and>
    isFinite (jsmul (Fin 100) (Fin dv)) \<and> isFinite (jsmul (Fin 100) (Fin rv))
    \<longrightarrow> (\<exists>a b. normalizePair (Fin dv) (Fin rv) = \<lparr>D = Fin a, R = Fin b\<rparr> \<and>
               \<bar>a - 100 * dv / (dv + rv)\<bar> \<le> 4 / 10 ^ 14 \<and>
               \<bar>b - 100 * rv / (dv + rv)\<bar> \<le> 4 / 10 ^ 14 \<and>
               \<bar>a + b - 100\<bar> \<le> 8 / 10 ^ 14)) \<and>
   (jsadd d r = Fin s \<and> 0 < s \<and> jsmul (Fin 100) d = PosInf
    \<longrightarrow> D (normalizePair d r) = PosInf) \<and>
   (\<not> isFinite (jsadd d r) \<or> jsle0 (jsadd d r)
    \<longrightarrow> normalizePair d r = \<lparr>D = Fin 50, R = Fin 50\<rparr>)"
proof (intro conjI impI)
  assume h: "isDouble dv \<and> isDouble rv \<and> 0 \<le> dv \<and> 0 \<le> rv \<and>
    jsadd (Fin dv) (Fin rv) = Fin s \<and> 0 < s \<and>
    isFinite (jsmul (Fin 100) (Fin dv)) \<and> isFinite (jsmul (Fin 100) (Fin rv))"
  then have s: "jsadd (Fin dv) (Fin rv) = Fin s" "0 < s" by simp_all
  have s': "jsadd (Fin rv) (Fin dv) = Fin s" using s(1) by (simp add: add.commute)
  obtain a where a: "jsdiv (jsmul (Fin 100) (Fin dv)) (Fin s) = Fin a"
      "\<bar>a - 100 * dv / (dv + rv)\<bar> \<le> 4 / 10 ^ 14"
    using share_value [of dv rv s] h by blast
  obtain b where b: "jsdiv (jsmul (Fin 100) (Fin rv)) (Fin s) = Fin b"
      "\<bar>b - 100 * rv / (rv + dv)\<bar> \<le> 4 / 10 ^ 14"
    using share_value [of rv dv s] h s' by blast
  have b': "\<bar>b - 100 * rv / (dv + rv)\<bar> \<le> 4 / 10 ^ 14"
    using b(2) by (simp only: add.commute)
  have "dv + rv \<noteq> 0"
  proof
    assume "dv + rv = 0"
    then have "s = 0" using s(1) by (simp add: dbl_0)
    with s(2) show False by simp
  qed
  then have "100 * (dv + rv) / (dv + rv) = 100"
    by (rule nonzero_mult_div_cancel_right)
  then have "(100 * dv + 100 * rv) / (dv + rv) = 100"
    by (simp only: distrib_left)
  then have "100 * dv / (dv + rv) + 100 * rv / (dv + rv) = 100"
    by (simp only: add_divide_distrib)
  with a(2) b' have "\<bar>a + b - 100\<bar> \<le> 8 / 10 ^ 14"
    by (simp only: abs_le_iff) linarith
  moreover have "normalizePair (Fin dv) (Fin rv) = \<lparr>D = Fin a, R = Fin b\<rparr>"
    using normalizePair_regular [OF s] a(1) b(1) by simp
  ultimately show "\<exists>a b. normalizePair (Fin dv) (Fin rv) = \<lparr>D = Fin a, R = Fin b\<rparr> \<and>
               \<bar>a - 100 * dv / (dv + rv)\<bar> \<le> 4 / 10 ^ 14 \<and>
               \<bar>b - 100 * rv / (dv + rv)\<bar> \<le> 4 / 10 ^ 14 \<and>
               \<bar>a + b - 100\<bar> \<le> 8 / 10 ^ 14"
    using a(2) b' by blast
next
  assume "jsadd d r = Fin s \<and> 0 < s \<and> jsmul (Fin 100) d = PosInf"
  then show "D (normalizePair d r) = PosInf"
    using normalizePair_regular [of d r s] by simp
next
  assume "\<not> isFinite (jsadd d r) \<or> jsle0 (jsadd d r)"
  then show "normalizePair d r = \<lparr>D = Fin 50, R = Fin 50\<rparr>"
    by (rule normalizePair_degenerate)
qed

lemma two_1020: "(2::real) ^ 1020 + 2 ^ 1020 = of_int (2 ^ 51) * 2 powr of_int 970"
proof -
  have "(2::real) powr of_int 970 = 2 ^ 970" by (simp add: powr_realpow [symmetric])
  then show ?thesis by simp
qed

lemma hundred_two_1020: "100 * (2::real) ^ 1020 = of_int 25 * 2 powr of_int 1022"
proof -
  have "(2::real) powr of_int 1022 = 2 ^ 1022" by (simp add: powr_realpow [symmetric])
  then show ?thesis by simp
qed

lemma sum_two_1020: "jsadd (Fin (2 ^ 1020)) (Fin (2 ^ 1020)) = Fin (2 ^ 1021)"
proof -
  define B :: real where "B = 2 ^ 1020"
  have e: "B + B = of_int (2 ^ 51) * 2 powr of_int 970"
    unfolding B_def by (rule two_1020)
  have e2: "B + B = 2 ^ 1021" unfolding B_def by simp
  have d: "dround (B + B) = B + B"
    unfolding e by (rule dround_repr) simp_all
  have "\<bar>B + B\<bar> < 2 ^ 1024" unfolding e2 by simp
  then have "\<bar>dround (B + B)\<bar> < 2 ^ 1024" by (simp only: d)
  then have "dbl (B + B) = Fin (dround (B + B))" by (rule dbl_Fin)
  then have "dbl (B + B) = Fin (B + B)" by (simp only: d)
  then have "jsadd (Fin B) (Fin B) = Fin (B + B)" by (simp only: jsadd.simps)
  then have "jsadd (Fin B) (Fin B) = Fin (2 ^ 1021)" by (simp only: e2)
  then show ?thesis unfolding B_def .
qed

lemma prod_two_1020: "jsmul (Fin 100) (Fin (2 ^ 1020)) = PosInf"
proof -
  define B :: real where "B = 2 ^ 1020"
  have e: "100 * B = of_int 25 * 2 powr of_int 1022"
    unfolding B_def by (rule hundred_two_1020)
  have d: "dround (100 * B) = 100 * B"
    unfolding e by (rule dround_repr) simp_all
  have "(2::real) ^ 1024 \<le> 100 * B" unfolding B_def by simp
  then have "dbl (100 * B) = PosInf"
    by (simp only: dbl_def Let_def d if_True)
  then have "jsmul (Fin 100) (Fin B) = PosInf"
    by (simp only: jsmul.simps)
  then show ?thesis unfolding B_def .
qed

lemma normalizePair_two_1020:
  "normalizePair (Fin (2 ^ 1020)) (Fin (2 ^ 1020)) = \<lparr>D = PosInf, R = PosInf\<rparr>"
proof -
  have q: "jsdiv PosInf (Fin (2 ^ 1021)) = PosInf" by simp
  have "normalizePair (Fin (2 ^ 1020)) (Fin (2 ^ 1020)) =
          \<lparr>D = jsdiv (jsmul (Fin 100) (Fin (2 ^ 1020))) (Fin (2 ^ 1021)),
           R = jsdiv (jsmul (Fin 100) (Fin (2 ^ 1020))) (Fin (2 ^ 1021))\<rparr>"
    by (rule normalizePair_regular [OF sum_two_1020]) simp
  then show ?thesis by (simp only: prod_two_1020 q)
qed

text \<open>
  The sum of \<open>2\<^sup>1\<^sup>0\<^sup>2\<^sup>0\<close> and \<open>2\<^sup>1\<^sup>0\<^sup>2\<^sup>0\<close> is finite and positive, and the components returned
  are both \<open>Infinity\<close>: they do not add up to 100.
\<close>

theorem normalizePair_overflow_counterexample:
  "isFinite (jsadd (Fin (2 ^ 1020)) (Fin (2 ^ 1020))) \<and>
   jslt (Fin 0) (jsadd (Fin (2 ^ 1020)) (Fin (2 ^ 1020))) \<and>
   normalizePair (Fin (2 ^ 1020)) (Fin (2 ^ 1020)) = \<lparr>D = PosInf, R = PosInf\<rparr>"
proof -
  have "isFinite (Fin (2 ^ 1021))" "jslt (Fin 0) (Fin (2 ^ 1021))" by simp_all
  then show ?thesis by (simp only: sum_two_1020 normalizePair_two_1020 simp_thms)
qed

theorem normalizePair_spec_witness:
  "(\<exists>a b. normalizePair (Fin 30) (Fin 10) = \<lparr>D = Fin a, R = Fin b\<rparr> \<and>
          \<bar>a - 100 * 30 / (30 + 10)\<bar> \<le> 4 / 10 ^ 14 \<and>
          \<bar>b - 100 * 10 / (30 + 10)\<bar> \<le> 4 / 10 ^ 14 \<and>
          \<bar>a + b - 100\<bar> \<le> 8 / 10 ^ 14) \<and>
   D (normalizePair (Fin (2 ^ 1020)) (Fin (2 ^ 1020))) = PosInf \<and>
   normalizePair NaN (Fin 1) = \<lparr>D = Fin 50, R = Fin 50\<rparr>"
proof -
  have "isDouble 30" "isDouble 10" by (simp_all add: isDouble_numeral)
  moreover have "jsadd (Fin 30) (Fin 10) = Fin 40" by (simp add: dbl_numeral)
  moreover have "isFinite (jsmul (Fin 100) (Fin 30))" "isFinite (jsmul (Fin 100) (Fin 10))"
    by (simp_all add: dbl_numeral)
  ultimately have h1: "isDouble 30 \<and> isDouble 10 \<and> (0::real) \<le> 30 \<and> (0::real) \<le> 10 \<and>
    jsadd (Fin 30) (Fin 10) = Fin 40 \<and> (0::real) < 40 \<and>
    isFinite (jsmul (Fin 100) (Fin 30)) \<and> isFinite (jsmul (Fin 100) (Fin 10))"
    by simp
  have "(0::real) < 2 ^ 1021" by simp
  then have h2: "jsadd (Fin (2 ^ 1020)) (Fin (2 ^ 1020)) = Fin (2 ^ 1021) \<and> (0::real) < 2 ^ 1021 \<and>
    jsmul (Fin 100) (Fin (2 ^ 1020)) = PosInf"
    by (simp only: sum_two_1020 prod_two_1020 simp_thms)
  have h3: "\<not> isFinite (jsadd NaN (Fin 1)) \<or> jsle0 (jsadd NaN (Fin 1))" by simp
  show ?thesis
    using normalizePair_spec [of 30 10 40 NaN "Fin 1"]
      normalizePair_spec [of 30 10 "2 ^ 1021" "Fin (2 ^ 1020)" "Fin (2 ^ 1020)"] h1 h2 h3
    by blast
qed

section \<open>Probability model\<close>

text \<open>
  The error function, the normal distribution function and the index into the table are
  taken over the reals; the store into the \<^verbatim>\<open>Float32Array\<close> table is rounded to single
  precision (\<open>fround\<close>), because the value held at margin 0 is decided by it.
\<close>

definition PROB_ERROR_SD_PTS :: real where
  "PROB_ERROR_SD_PTS = 7"

definition erf :: "real \<Rightarrow> real" where
  "erf x0 =
     (let sign = (if x0 < 0 then - 1 else 1);
          x = \<bar>x0\<bar>;
          a1 = 0.254829592; a2 = - 0.284496736; a3 = 1.421413741;
          a4 = - 1.453152027; a5 = 1.061405429; p = 0.3275911;
          t = 1 / (1 + p * x);
          y = 1 - (((((a5 * t + a4) * t) + a3) * t + a2) * t + a1) * t * exp (- x * x)
      in sign * y)"

definition normalCDF :: "real \<Rightarrow> real" where
  "normalCDF x = 0.5 * (1 + erf (x / sqrt 2))"

record winProb =
  pD :: real
  pR :: real

definition winProbFromMargin :: "real \<Rightarrow> winProb" where
  "winProbFromMargin m =
     (let z = m / PROB_ERROR_SD_PTS;
          pr = clamp (normalCDF z) 0 1
      in \<lparr>pD = 1 - pr, pR = pr\<rparr>)"

definition WINP_MIN :: real where "WINP_MIN = - 40"
definition WINP_MAX :: real where "WINP_MAX = 40"
definition WINP_STEP :: real where "WINP_STEP = 0.1"

definition WINP_N :: nat where
  "WINP_N = nat (round ((WINP_MAX - WINP_MIN) / WINP_STEP) + 1)"

definition WINP_PD_TABLE :: "int \<Rightarrow> real option" where
  "WINP_PD_TABLE i =
     (if 0 \<le> i \<and> i < int WINP_N
      then Some (fround (pD (winProbFromMargin (WINP_MIN + of_int i * WINP_STEP))))
      else None)"

definition winProbD_fast :: "jsnum \<Rightarrow> real" where
  "winProbD_fast m =
     (case m of
        Fin x \<Rightarrow>
          (let mm = clamp x WINP_MIN WINP_MAX;
               idx = round ((mm - WINP_MIN) / WINP_STEP)
           in case WINP_PD_TABLE idx of Some v \<Rightarrow> v | None \<Rightarrow> 0.5)
      | _ \<Rightarrow> 0.5)"

lemma WINP_N_eq: "WINP_N = 801"
  by (simp add: WINP_N_def WINP_MAX_def WINP_MIN_def WINP_STEP_def)

lemma erf_0: "erf 0 = 1 / 10 ^ 9"
  by (simp add: erf_def)

lemma pD_0: "pD (winProbFromMargin 0) = 999999999 / 2000000000"
  by (simp add: winProbFromMargin_def normalCDF_def erf_0 clamp_def PROB_ERROR_SD_PTS_def)

lemma fround_pos_eq:
  assumes "0 < x"
  shows "fround x = of_int (rne (x / 2 powr (of_int (max \<lfloor>log 2 x\<rfloor> (- 126)) - 23)))
                     * 2 powr (of_int (max \<lfloor>log 2 x\<rfloor> (- 126)) - 23)"
  using assms by (simp add: fround_def Let_def)

lemma fround_upper:
  assumes "0 < x"
  shows "fround x \<le> 2 powr (of_int (max \<lfloor>log 2 x\<rfloor> (- 126)) + 1)"
proof -
  define e where "e = max \<lfloor>log 2 x\<rfloor> (- 126)"
  define u :: real where "u = 2 powr (of_int e - 23)"
  have u: "0 < u" by (simp add: u_def)
  have "x < 2 powr of_int (\<lfloor>log 2 x\<rfloor> + 1)" by (rule log2_floor_bounds [OF assms])
  also have "\<dots> \<le> 2 powr (of_int e + 1)"
    by (simp add: e_def)
  finally have "x / u \<le> 2 powr (of_int e + 1) / u"
    using u by (simp add: divide_right_mono)
  also have "2 powr (of_int e + 1) / u = of_int (2 ^ 24)"
    using two_powr_unscale [of "of_int e + 1" 24] by (simp add: u_def)
  finally have "rne (x / u) \<le> 2 ^ 24"
    using rne_mono [of "x / u" "of_int (2 ^ 24)"] by (simp only: rne_of_int)
  then have "of_int (rne (x / u)) * u \<le> of_int (2 ^ 24) * u"
    using u by (intro mult_right_mono) (simp_all only: of_int_le_iff less_imp_le)
  also have "of_int (2 ^ 24) * u = 2 powr (of_int e + 1)"
    using two_powr_scale [of 24 "of_int e + 1"] by (simp add: u_def)
  finally show ?thesis
    using assms by (simp add: fround_pos_eq e_def u_def)
qed

lemma fround_lower:
  assumes "0 < x" and "- 126 \<le> \<lfloor>log 2 x\<rfloor>"
  shows "2 powr of_int \<lfloor>log 2 x\<rfloor> \<le> fround x"
proof -
  define e where "e = \<lfloor>log 2 x\<rfloor>"
  define u :: real where "u = 2 powr (of_int e - 23)"
  have u: "0 < u" by (simp add: u_def)
  have m: "max \<lfloor>log 2 x\<rfloor> (- 126) = e" using assms(2) by (simp add: e_def)
  have "2 powr of_int e \<le> x" unfolding e_def by (rule log2_floor_bounds [OF assms(1)])
  then have "2 powr of_int e / u \<le> x / u"
    using u by (simp add: divide_right_mono)
  moreover have "2 powr of_int e / u = of_int (2 ^ 23)"
    using two_powr_unscale [of "of_int e" 23] by (simp add: u_def)
  ultimately have "of_int (2 ^ 23) \<le> x / u" by simp
  then have "2 ^ 23 \<le> rne (x / u)"
    using rne_mono [of "of_int (2 ^ 23)" "x / u"] by (simp only: rne_of_int)
  then have "of_int (2 ^ 23) * u \<le> of_int (rne (x / u)) * u"
    using u by (intro mult_right_mono) (simp_all only: of_int_le_iff less_imp_le)
  moreover have "of_int (2 ^ 23) * u = 2 powr of_int e"
    using two_powr_scale [of 23 "of_int e"] by (simp add: u_def)
  ultimately have "2 powr of_int e \<le> of_int (rne (x / u)) * u"
    by (simp only:)
  moreover have "fround x = of_int (rne (x / u)) * u"
    using assms(1) m by (simp only: fround_pos_eq u_def)
  ultimately show ?thesis
    by (simp only: e_def)
qed

lemma fround_nonneg:
  assumes "0 \<le> x"
  shows "0 \<le> fround x"
proof (cases "x = 0")
  case True
  then show ?thesis by (simp add: fround_def)
next
  case False
  with assms have x: "0 < x" by simp
  define u :: real where "u = 2 powr (of_int (max \<lfloor>log 2 x\<rfloor> (- 126)) - 23)"
  have u: "0 < u" by (simp add: u_def)
  then have "0 \<le> x / u" using x by simp
  then have "0 \<le> rne (x / u)"
    using rne_mono [of "of_int 0" "x / u"] rne_of_int [of 0] by simp
  then show ?thesis
    using x u by (simp add: fround_pos_eq u_def)
qed

lemma fround_mono:
  assumes "0 \<le> x" and "x \<le> y"
  shows "fround x \<le> fround y"
proof (cases "x = 0")
  case True
  then show ?thesis using fround_nonneg [of y] assms by (simp add: fround_def)
next
  case False
  with assms have x: "0 < x" and y: "0 < y" by simp_all
  define ex where "ex = max \<lfloor>log 2 x\<rfloor> (- 126)"
  define ey where "ey = max \<lfloor>log 2 y\<rfloor> (- 126)"
  have "log 2 x \<le> log 2 y" using x assms(2) by simp
  then have le: "ex \<le> ey"
    unfolding ex_def ey_def by (intro max.mono floor_mono) simp_all
  show ?thesis
  proof (cases "ex = ey")
    case True
    define u :: real where "u = 2 powr (of_int ey - 23)"
    have u: "0 < u" by (simp add: u_def)
    have "x / u \<le> y / u" using assms(2) u by (simp add: divide_right_mono)
    then have "of_int (rne (x / u)) * u \<le> of_int (rne (y / u)) * u"
      using u rne_mono [of "x / u" "y / u"]
      by (intro mult_right_mono) (simp_all only: of_int_le_iff less_imp_le)
    then show ?thesis
      using x y True by (simp add: fround_pos_eq ex_def [symmetric] ey_def [symmetric] u_def)
  next
    case False
    with le have lt: "ex + 1 \<le> ey" by simp
    then have ey: "ey = \<lfloor>log 2 y\<rfloor>" "- 126 \<le> \<lfloor>log 2 y\<rfloor>"
      unfolding ex_def ey_def by linarith+
    have "fround x \<le> 2 powr (of_int ex + 1)"
      unfolding ex_def by (rule fround_upper [OF x])
    also have "\<dots> \<le> 2 powr of_int ey"
      using lt by (intro powr_mono) simp_all
    also have "\<dots> \<le> fround y"
      unfolding ey(1) by (rule fround_lower [OF y ey(2)])
    finally show ?thesis .
  qed
qed

lemma fround_1: "fround 1 = 1"
proof -
  have "fround 1 = of_int (rne (1 / 2 powr (- 23))) * 2 powr (- 23)"
    by (simp add: fround_def Let_def)
  also have "1 / 2 powr (- 23) = (of_int (2 ^ 23) :: real)"
    by (simp add: powr_minus)
  also have "of_int (rne (of_int (2 ^ 23))) * 2 powr (- 23) = (1::real)"
    by (simp only: rne_of_int) (simp add: powr_minus)
  finally show ?thesis .
qed

lemma fround_unit:
  assumes "0 \<le> x" "x \<le> 1"
  shows "0 \<le> fround x \<and> fround x \<le> 1"
  using fround_nonneg [OF assms(1)] fround_mono [OF assms] by (simp add: fround_1)

lemma fround_half_below: "fround (999999999 / 2000000000) = 1 / 2"
proof -
  have fl: "\<lfloor>log 2 (999999999 / 2000000000 :: real)\<rfloor> = - 2"
    by (subst floor_log_eq_powr_iff) (simp_all add: powr_minus)
  have "fround (999999999 / 2000000000) =
          of_int (rne ((999999999 / 2000000000) / 2 powr (- 25))) * 2 powr (- 25)"
    using fl by (simp add: fround_def Let_def)
  also have "(999999999 / 2000000000) / 2 powr (- 25) = (16777215 + 983222784 / 1000000000 :: real)"
    by (simp add: powr_minus)
  also have "rne (16777215 + 983222784 / 1000000000) = 16777216"
    by (simp add: rne_def Let_def)
  finally show ?thesis by (simp add: powr_minus)
qed

definition erfPoly :: "real \<Rightarrow> real" where
  "erfPoly t = (((((1.061405429 * t + (- 1.453152027)) * t) + 1.421413741) * t + (- 0.284496736)) * t + 0.254829592) * t"

lemma erf_alt:
  "erf x = (if x < 0 then - 1 else 1) * (1 - erfPoly (1 / (1 + 0.3275911 * \<bar>x\<bar>)) * exp (- \<bar>x\<bar> * \<bar>x\<bar>))"
  by (simp add: erf_def erfPoly_def Let_def)

lemma quad_nonneg:
  fixes a b c t :: real
  assumes "0 < a" and "b * b \<le> 4 * a * c"
  shows "0 \<le> a * (t * t) + b * t + c"
proof -
  have "4 * a * (a * (t * t) + b * t + c) = (2 * a * t + b) * (2 * a * t + b) + (4 * a * c - b * b)"
    by (simp add: algebra_simps)
  also have "0 \<le> \<dots>" using assms(2) by simp
  finally have "0 \<le> 4 * a * (a * (t * t) + b * t + c)" .
  then show ?thesis
    using assms(1) by (simp add: zero_le_mult_iff)
qed

lemma erfPoly_deriv_nonneg:
  fixes t :: real
  shows "0 \<le> 0.254829592 + 2 * (- 0.284496736) * t + 3 * 1.421413741 * (t * t)
         + 4 * (- 1.453152027) * (t * t * t) + 5 * 1.061405429 * (t * t * t * t)" (is "0 \<le> ?q")
proof -
  have q1: "0 \<le> 1 * (t * t) + (2 * (- 0.284496736)) * t + (0.254829592 :: real)"
    by (rule quad_nonneg) simp_all
  have q2: "0 \<le> (5 * 1.061405429) * (t * t) + (4 * (- 1.453152027)) * t + (3 * 1.421413741 - 1 :: real)"
    by (rule quad_nonneg) simp_all
  have "0 \<le> (t * t) * ((5 * 1.061405429) * (t * t) + (4 * (- 1.453152027)) * t + (3 * 1.421413741 - 1))"
    by (rule mult_nonneg_nonneg [OF zero_le_square q2])
  with q1 have "0 \<le> (1 * (t * t) + (2 * (- 0.284496736)) * t + 0.254829592)
      + (t * t) * ((5 * 1.061405429) * (t * t) + (4 * (- 1.453152027)) * t + (3 * 1.421413741 - 1))"
    by (rule add_nonneg_nonneg)
  also have "\<dots> = ?q" by (simp add: algebra_simps)
  finally show ?thesis .
qed

lemma erfPoly_has_deriv:
  fixes t :: real
  shows "(erfPoly has_real_derivative
      (0.254829592 + 2 * (- 0.284496736) * t + 3 * 1.421413741 * (t * t)
         + 4 * (- 1.453152027) * (t * t * t) + 5 * 1.061405429 * (t * t * t * t))) (at t)"
  unfolding erfPoly_def
  by (rule derivative_eq_intros refl | simp add: algebra_simps)+

lemma erfPoly_mono:
  assumes "s \<le> t"
  shows "erfPoly s \<le> erfPoly t"
  using assms
  by (rule DERIV_nonneg_imp_nondecreasing) (blast intro: erfPoly_has_deriv erfPoly_deriv_nonneg)

lemma erfPoly_0: "erfPoly 0 = 0"
  by (simp add: erfPoly_def)

lemma erfPoly_1: "erfPoly 1 = 999999999 / 1000000000"
  by (simp add: erfPoly_def)

definition erfTail :: "real \<Rightarrow> real" where
  "erfTail a = erfPoly (1 / (1 + 0.3275911 * a)) * exp (- a * a)"

lemma erf_tail: "erf x = (if x < 0 then - (1 - erfTail (- x)) else 1 - erfTail x)"
  by (simp add: erf_alt erfTail_def)

lemma erfTail_antimono:
  assumes "0 \<le> a" and "a \<le> b"
  shows "erfTail b \<le> erfTail a"
proof -
  have "1 / (1 + 0.3275911 * b) \<le> 1 / (1 + 0.3275911 * a)"
    using assms by (intro divide_left_mono) (simp_all add: add_pos_nonneg)
  then have p: "erfPoly (1 / (1 + 0.3275911 * b)) \<le> erfPoly (1 / (1 + 0.3275911 * a))"
    by (rule erfPoly_mono)
  have "0 \<le> 1 / (1 + 0.3275911 * b)"
    using assms by simp
  then have p0: "0 \<le> erfPoly (1 / (1 + 0.3275911 * b))"
    using erfPoly_mono [of 0 "1 / (1 + 0.3275911 * b)"] by (simp add: erfPoly_0)
  have "a * a \<le> b * b"
    using assms by (intro mult_mono) simp_all
  then have e: "exp (- b * b) \<le> exp (- a * a)" by simp
  show ?thesis
    unfolding erfTail_def using p e p0
    by (intro mult_mono) simp_all
qed

lemma erfTail_lt_1:
  assumes "0 \<le> a"
  shows "erfTail a < 1"
proof -
  have "erfTail a \<le> erfTail 0"
    using assms by (intro erfTail_antimono) simp_all
  also have "erfTail 0 < 1" by (simp add: erfTail_def erfPoly_1)
  finally show ?thesis .
qed

lemma erf_mono:
  assumes "x \<le> y"
  shows "erf x \<le> erf y"
proof -
  consider "y < 0" | "x < 0" "0 \<le> y" | "0 \<le> x" by linarith
  then show ?thesis
  proof cases
    case 1
    then have "erfTail (- x) \<le> erfTail (- y)"
      using assms by (intro erfTail_antimono) simp_all
    with 1 assms show ?thesis by (simp add: erf_tail)
  next
    case 2
    have "erfTail (- x) < 1" "erfTail y < 1"
      using 2 by (simp_all add: erfTail_lt_1)
    with 2 show ?thesis by (simp add: erf_tail)
  next
    case 3
    then have "erfTail y \<le> erfTail x"
      using assms by (intro erfTail_antimono) simp_all
    with 3 assms show ?thesis by (simp add: erf_tail)
  qed
qed

lemma normalCDF_mono:
  assumes "x \<le> y"
  shows "normalCDF x \<le> normalCDF y"
proof -
  have "x / sqrt 2 \<le> y / sqrt 2"
    using assms by (simp add: divide_right_mono)
  then show ?thesis
    unfolding normalCDF_def using erf_mono by simp
qed

lemma pD_unit: "0 \<le> pD (winProbFromMargin m) \<and> pD (winProbFromMargin m) \<le> 1"
  by (simp add: winProbFromMargin_def clamp_def Let_def)

lemma pD_antimono:
  assumes "m1 \<le> m2"
  shows "pD (winProbFromMargin m2) \<le> pD (winProbFromMargin m1)"
proof -
  have "m1 / PROB_ERROR_SD_PTS \<le> m2 / PROB_ERROR_SD_PTS"
    using assms by (simp add: PROB_ERROR_SD_PTS_def)
  then have "normalCDF (m1 / PROB_ERROR_SD_PTS) \<le> normalCDF (m2 / PROB_ERROR_SD_PTS)"
    by (rule normalCDF_mono)
  then show ?thesis
    by (simp add: winProbFromMargin_def clamp_def Let_def)
qed

text \<open>The entry of the table at an index in range.\<close>

definition tableEntry :: "int \<Rightarrow> real" where
  "tableEntry i = fround (pD (winProbFromMargin (WINP_MIN + of_int i * WINP_STEP)))"

lemma WINP_PD_TABLE_in: "0 \<le> i \<Longrightarrow> i \<le> 800 \<Longrightarrow> WINP_PD_TABLE i = Some (tableEntry i)"
  by (simp add: WINP_PD_TABLE_def WINP_N_eq tableEntry_def)

lemma tableEntry_antimono:
  assumes "i \<le> j"
  shows "tableEntry j \<le> tableEntry i"
proof -
  have "WINP_MIN + of_int i * WINP_STEP \<le> WINP_MIN + of_int j * WINP_STEP"
    using assms by (simp add: WINP_STEP_def)
  then have "pD (winProbFromMargin (WINP_MIN + of_int j * WINP_STEP))
               \<le> pD (winProbFromMargin (WINP_MIN + of_int i * WINP_STEP))"
    by (rule pD_antimono)
  then show ?thesis
    unfolding tableEntry_def using pD_unit by (intro fround_mono) simp_all
qed

lemma tableEntry_unit: "0 \<le> tableEntry i \<and> tableEntry i \<le> 1"
  unfolding tableEntry_def using pD_unit by (intro fround_unit) simp_all

lemma tableEntry_400: "tableEntry 400 = 1 / 2"
  by (simp add: tableEntry_def WINP_MIN_def WINP_STEP_def pD_0 fround_half_below)

text \<open>The index computed for a finite margin.\<close>

definition tableIndex :: "real \<Rightarrow> int" where
  "tableIndex x = round ((clamp x WINP_MIN WINP_MAX - WINP_MIN) / WINP_STEP)"

lemma tableIndex_range: "0 \<le> tableIndex x \<and> tableIndex x \<le> 800"
proof -
  have c: "- 40 \<le> clamp x WINP_MIN WINP_MAX" "clamp x WINP_MIN WINP_MAX \<le> 40"
    by (simp_all add: clamp_def WINP_MIN_def WINP_MAX_def)
  have "round (0::real) \<le> tableIndex x"
    unfolding tableIndex_def using c by (intro round_mono) (simp add: WINP_MIN_def WINP_STEP_def)
  moreover have "tableIndex x \<le> round (800::real)"
    unfolding tableIndex_def using c by (intro round_mono) (simp add: WINP_MIN_def WINP_STEP_def)
  ultimately show ?thesis by simp
qed

lemma tableIndex_mono:
  assumes "x \<le> y"
  shows "tableIndex x \<le> tableIndex y"
proof -
  have "clamp x WINP_MIN WINP_MAX \<le> clamp y WINP_MIN WINP_MAX"
    unfolding clamp_def using assms by (intro max.mono min.mono) simp_all
  then show ?thesis
    unfolding tableIndex_def by (intro round_mono) (simp add: WINP_STEP_def)
qed

lemma winProbD_fast_Fin: "winProbD_fast (Fin x) = tableEntry (tableIndex x)"
  using tableIndex_range [of x]
  by (simp add: winProbD_fast_def Let_def tableIndex_def [symmetric] WINP_PD_TABLE_in)

lemma winProbD_fast_zero_aux: "winProbD_fast (Fin 0) = 1 / 2"
proof -
  have "tableIndex 0 = 400"
    by (simp add: tableIndex_def clamp_def WINP_MIN_def WINP_MAX_def WINP_STEP_def)
  then show ?thesis by (simp add: winProbD_fast_Fin tableEntry_400)
qed

lemma winProbD_fast_unit: "0 \<le> winProbD_fast m \<and> winProbD_fast m \<le> 1"
proof (cases m)
  case (Fin x)
  then show ?thesis using tableEntry_unit by (simp add: winProbD_fast_Fin)
qed (simp_all add: winProbD_fast_def)

text \<open>
  C3. The table-backed win probability is monotone non-increasing in the margin: for
  finite margins \<open>m1 < m2\<close> the value at \<open>m1\<close> is at least the value at \<open>m2\<close>; and at
  margin 0 it is exactly one half (the entry stored there is the single-precision
  rounding of 0.4999999995).
\<close>

theorem winProbD_fast_monotone:
  "(\<forall>m1 m2. m1 < m2 \<longrightarrow> winProbD_fast (Fin m2) \<le> winProbD_fast (Fin m1)) \<and>
   winProbD_fast (Fin 0) = 0.5"
proof (intro conjI allI impI)
  fix m1 m2 :: real
  assume "m1 < m2"
  then have "tableIndex m1 \<le> tableIndex m2"
    by (intro tableIndex_mono) simp
  then have "tableEntry (tableIndex m2) \<le> tableEntry (tableIndex m1)"
    by (rule tableEntry_antimono)
  then show "winProbD_fast (Fin m2) \<le> winProbD_fast (Fin m1)"
    by (simp only: winProbD_fast_Fin)
next
  show "winProbD_fast (Fin 0) = 0.5"
    using winProbD_fast_zero_aux by simp
qed

theorem winProbD_fast_monotone_witness:
  "winProbD_fast (Fin 5) \<le> winProbD_fast (Fin (- 3)) \<and>
   winProbD_fast (Fin 5) \<le> winProbD_fast (Fin 0) \<and>
   winProbD_fast (Fin 0) = 0.5"
  using winProbD_fast_monotone by simp

text \<open>
  C6. A margin that is not finite gives exactly one half. A margin above +40 gives the
  value at +40 and a margin below -40 the value at -40. Every returned probability lies
  between 0 and 1.
\<close>

theorem winProbD_fast_clamped:
  "(\<not> isFinite m \<longrightarrow> winProbD_fast m = 0.5) \<and>
   (40 < x \<longrightarrow> winProbD_fast (Fin x) = winProbD_fast (Fin 40)) \<and>
   (x < - 40 \<longrightarrow> winProbD_fast (Fin x) = winProbD_fast (Fin (- 40))) \<and>
   0 \<le> winProbD_fast m \<and> winProbD_fast m \<le> 1"
proof (intro conjI impI)
  assume "\<not> isFinite m"
  then show "winProbD_fast m = 0.5"
    by (cases m) (simp_all add: winProbD_fast_def)
next
  assume "40 < x"
  then have "clamp x WINP_MIN WINP_MAX = clamp 40 WINP_MIN WINP_MAX"
    by (simp add: clamp_def WINP_MIN_def WINP_MAX_def)
  then show "winProbD_fast (Fin x) = winProbD_fast (Fin 40)"
    by (simp add: winProbD_fast_def)
next
  assume "x < - 40"
  then have "clamp x WINP_MIN WINP_MAX = clamp (- 40) WINP_MIN WINP_MAX"
    by (simp add: clamp_def WINP_MIN_def WINP_MAX_def)
  then show "winProbD_fast (Fin x) = winProbD_fast (Fin (- 40))"
    by (simp add: winProbD_fast_def)
next
  show "0 \<le> winProbD_fast m" "winProbD_fast m \<le> 1"
    using winProbD_fast_unit by simp_all
qed

theorem winProbD_fast_clamped_witness:
  "winProbD_fast NaN = 0.5 \<and> winProbD_fast PosInf = 0.5 \<and>
   winProbD_fast (Fin 55) = winProbD_fast (Fin 40) \<and>
   winProbD_fast (Fin (- 70)) = winProbD_fast (Fin (- 40)) \<and>
   0 \<le> winProbD_fast (Fin 55) \<and> winProbD_fast (Fin 55) \<le> 1"
  using winProbD_fast_clamped [of NaN 55] winProbD_fast_clamped [of PosInf "- 70"]
    winProbD_fast_clamped [of "Fin 55" 0]
  by simp

section \<open>Configuration and loaded data\<close>

definition NUM_SIMS :: nat where "NUM_SIMS = 10000"
definition HOUSE_MC_SWING_RANGE_PTS :: real where "HOUSE_MC_SWING_RANGE_PTS = 7"
definition SENATE_MC_SWING_RANGE_PTS :: real where "SENATE_MC_SWING_RANGE_PTS = 7"
definition WEIGHTS_gb :: real where "WEIGHTS_gb = 35"
definition WEIGHTS_polls :: real where "WEIGHTS_polls = 50"
definition WEIGHTS_ind :: real where "WEIGHTS_ind = 15"
definition GB_WINDOW_POLLS :: nat where "GB_WINDOW_POLLS = 24"
definition STATE_POLL_WINDOW :: nat where "STATE_POLL_WINDOW = 6"

datatype chamber = Senate | Governor | House

record seatRules =
  total :: int
  majorityLine :: int
  baseR :: int
  baseD :: int

fun SEAT_RULES :: "chamber \<Rightarrow> seatRules" where
  "SEAT_RULES Senate = \<lparr>total = 100, majorityLine = 51, baseR = 31, baseD = 34\<rparr>"
| "SEAT_RULES Governor = \<lparr>total = 50, majorityLine = 26, baseR = 8, baseD = 6\<rparr>"
| "SEAT_RULES House = \<lparr>total = 435, majorityLine = 218, baseR = 0, baseD = 0\<rparr>"

definition SENATE_CONTROL_RULE_demAtLeast :: int where
  "SENATE_CONTROL_RULE_demAtLeast = 51"

text \<open>
  The global tables. \<^verbatim>\<open>DATA[mode]\<close> holds the generic-ballot pair (or null), the ratio
  of each seat and its current poll \<^verbatim>\<open>{D, R, S}\<close>; \<^verbatim>\<open>STATE_POLL_DATA[mode]\<close> holds the dated
  polls of each seat. A \<^verbatim>\<open>Date\<close> is its day number. The ratios are kept as the list of
  the object's entries, because its keys are enumerated; the house's \<^verbatim>\<open>meta\<close> labels are
  left out. The globals are passed to every function that reads them.
\<close>

record poll = pair +
  S :: jsnum

record statePoll = pair +
  date :: int
  sigma :: jsnum

record chamberData =
  gb :: "pair option"
  ratios :: "(string \<times> pair) list"
  polls :: "string \<rightharpoonup> poll"

record globals =
  DATA :: "chamber \<Rightarrow> chamberData"
  STATE_POLL_DATA :: "chamber \<Rightarrow> string \<rightharpoonup> statePoll list"

section \<open>Signal projection and the weighted combiner\<close>

definition computeGenericBallotState :: "pair \<Rightarrow> pair \<Rightarrow> pair" where
  "computeGenericBallotState g ratio =
     normalizePair (jsmul (D g) (D ratio)) (jsmul (R g) (R ratio))"

definition computePollState :: "poll option \<Rightarrow> pair option" where
  "computePollState p =
     (case p of
        None \<Rightarrow> None
      | Some q \<Rightarrow>
          if \<not> isFinite (D q) \<or> \<not> isFinite (R q) \<or> jsle0 (jsadd (D q) (R q)) then None
          else Some (normalizePair (D q) (R q)))"

definition computeIndicatorState :: "pair \<Rightarrow> pair \<Rightarrow> pair" where
  "computeIndicatorState indNat ratio =
     normalizePair (jsmul (D indNat) (D ratio)) (jsmul (R indNat) (R ratio))"

record component =
  pair :: "pair option"
  w :: jsnum

text \<open>The test on which the loop of \<^verbatim>\<open>weightedCombine\<close> skips a component.\<close>

definition skipped :: "component option \<Rightarrow> bool" where
  "skipped c =
     (case c of
        None \<Rightarrow> True
      | Some c' \<Rightarrow> pair c' = None \<or> \<not> isFinite (w c') \<or> jsle0 (w c'))"

text \<open>One iteration of the loop, on the running sums \<^verbatim>\<open>W\<close>, \<^verbatim>\<open>D\<close> and \<^verbatim>\<open>R\<close>.\<close>

fun wcStep :: "jsnum \<times> jsnum \<times> jsnum \<Rightarrow> component option \<Rightarrow> jsnum \<times> jsnum \<times> jsnum" where
  "wcStep (W, Dn, Rn) c =
     (if skipped c then (W, Dn, Rn)
      else (case c of
              Some c' \<Rightarrow>
                (case pair c' of
                   Some p \<Rightarrow>
                     (jsadd W (w c'), jsadd Dn (jsmul (w c') (D p)), jsadd Rn (jsmul (w c') (R p)))
                 | None \<Rightarrow> (W, Dn, Rn))
            | None \<Rightarrow> (W, Dn, Rn)))"

definition weightedCombine :: "component option list \<Rightarrow> pair" where
  "weightedCombine components =
     (case foldl wcStep (Fin 0, Fin 0, Fin 0) components of
        (W, Dn, Rn) \<Rightarrow>
          if jsle0 W then \<lparr>D = Fin 50, R = Fin 50\<rparr>
          else normalizePair (jsdiv Dn W) (jsdiv Rn W))"

text \<open>
  \<^verbatim>\<open>winProbFromMargin\<close> at a number that need not be finite. At \<^verbatim>\<open>Infinity\<close> the factor
  \<^verbatim>\<open>t\<close> of \<^verbatim>\<open>erf\<close> is 0, so that \<^verbatim>\<open>erf\<close> is 1 and \<^verbatim>\<open>pR\<close> is 1; at \<^verbatim>\<open>-Infinity\<close> \<^verbatim>\<open>pR\<close> is 0; at NaN
  both probabilities are NaN, which is \<open>None\<close> here.
\<close>

definition winProbAt :: "jsnum \<Rightarrow> winProb option" where
  "winProbAt m =
     (case m of
        Fin x \<Rightarrow> Some (winProbFromMargin x)
      | PosInf \<Rightarrow> Some \<lparr>pD = 0, pR = 1\<rparr>
      | NegInf \<Rightarrow> Some \<lparr>pD = 1, pR = 0\<rparr>
      | NaN \<Rightarrow> None)"

record model =
  combinedPair :: pair
  winProb :: "winProb option"

definition getStateModel :: "globals \<Rightarrow> chamber \<Rightarrow> string \<Rightarrow> pair option \<Rightarrow> model option" where
  "getStateModel g modeKey st cachedIndNat =
     (let gbv = (case gb (DATA g modeKey) of Some x \<Rightarrow> x | None \<Rightarrow> \<lparr>D = Fin 50, R = Fin 50\<rparr>)
      in case map_of (ratios (DATA g modeKey)) st of
           None \<Rightarrow> None
         | Some ratio \<Rightarrow>
             (let gbPair = computeGenericBallotState gbv ratio;
                  pollRaw = polls (DATA g modeKey) st;
                  pollPair = computePollState pollRaw;
                  indPair = (case cachedIndNat of
                               Some i \<Rightarrow> Some (computeIndicatorState i ratio)
                             | None \<Rightarrow> None);
                  comps =
                    [Some \<lparr>pair = Some gbPair, w = Fin WEIGHTS_gb\<rparr>,
                     Some \<lparr>pair = pollPair, w = Fin (if pollPair \<noteq> None then WEIGHTS_polls else 0)\<rparr>,
                     Some \<lparr>pair = indPair, w = Fin (if indPair \<noteq> None then WEIGHTS_ind else 0)\<rparr>];
                  cp = weightedCombine comps;
                  mFinal = marginRD cp
              in Some \<lparr>combinedPair = cp, winProb = winProbAt mFinal\<rparr>))"

definition getHouseModel :: "globals \<Rightarrow> string \<Rightarrow> model option" where
  "getHouseModel g did =
     (let gbv = (case gb (DATA g House) of
                   Some x \<Rightarrow> x
                 | None \<Rightarrow> (case gb (DATA g Senate) of
                              Some x \<Rightarrow> x
                            | None \<Rightarrow> (case gb (DATA g Governor) of
                                         Some x \<Rightarrow> x
                                       | None \<Rightarrow> \<lparr>D = Fin 50, R = Fin 50\<rparr>)))
      in case map_of (ratios (DATA g House)) did of
           None \<Rightarrow> None
         | Some ratio \<Rightarrow>
             (let cp = computeGenericBallotState gbv ratio;
                  mFinal = marginRD cp
              in Some \<lparr>combinedPair = cp, winProb = winProbAt mFinal\<rparr>))"

lemma jsle0_simps [simp]:
  "jsle0 (Fin x) = (x \<le> 0)" "jsle0 NegInf" "\<not> jsle0 PosInf" "\<not> jsle0 NaN"
  by (simp_all add: jsle0_def)




subsection \<open>A single present component\<close>





subsection \<open>The error of \<^verbatim>\<open>(w * x) / w\<close>\<close>













section \<open>Current-day Monte Carlo simulation\<close>

text \<open>
  \<^verbatim>\<open>Math.random()\<close> is the sequence of its successive values, a function of the number of
  calls made so far; every function that draws takes the sequence and the position and
  the caller moves the position on.
\<close>

type_synonym rng = "nat \<Rightarrow> real"

definition ratioKeys :: "globals \<Rightarrow> chamber \<Rightarrow> string list" where
  "ratioKeys g modeKey = sort (map fst (ratios (DATA g modeKey)))"

definition upSeats :: "chamber \<Rightarrow> nat" where
  "upSeats modeKey =
     nat (total (SEAT_RULES modeKey) - baseD (SEAT_RULES modeKey) - baseR (SEAT_RULES modeKey))"

text \<open>
  The baseline margins, a \<^verbatim>\<open>Float32Array\<close>: the models of the keys in order, those without
  a ratio passed over, at most \<open>upSeats\<close> of them, the remaining entries 0. A margin that
  is not finite is stored as 0, and every store rounds to single precision.
\<close>

fun fillMargins :: "nat \<Rightarrow> model option list \<Rightarrow> jsnum list" where
  "fillMargins 0 ms = []"
| "fillMargins (Suc n) [] = Fin 0 # fillMargins n []"
| "fillMargins (Suc n) (None # ms) = fillMargins (Suc n) ms"
| "fillMargins (Suc n) (Some m # ms) =
     toFloat32 (if isFinite (marginRD (combinedPair m)) then marginRD (combinedPair m) else Fin 0)
       # fillMargins n ms"

definition getModel :: "globals \<Rightarrow> chamber \<Rightarrow> pair option \<Rightarrow> string \<Rightarrow> model option" where
  "getModel g modeKey cachedIndNat k =
     (case modeKey of
        House \<Rightarrow> getHouseModel g k
      | _ \<Rightarrow> getStateModel g modeKey k cachedIndNat)"

definition baselineMargins :: "globals \<Rightarrow> chamber \<Rightarrow> pair option \<Rightarrow> jsnum list" where
  "baselineMargins g modeKey cachedIndNat =
     fillMargins (upSeats modeKey) (map (getModel g modeKey cachedIndNat) (ratioKeys g modeKey))"

text \<open>The inner loop over the seats: one draw per seat, a win when it is below \<open>pD\<close>.\<close>

fun seatLoop :: "jsnum list \<Rightarrow> jsnum \<Rightarrow> rng \<Rightarrow> nat \<Rightarrow> bool list" where
  "seatLoop [] swing rnd k = []"
| "seatLoop (m # ms) swing rnd k =
     (rnd k < winProbD_fast (jsadd m swing)) # seatLoop ms swing rnd (Suc k)"

definition swingRange :: "chamber \<Rightarrow> real" where
  "swingRange modeKey =
     (case modeKey of House \<Rightarrow> HOUSE_MC_SWING_RANGE_PTS | _ \<Rightarrow> SENATE_MC_SWING_RANGE_PTS)"

text \<open>
  The control test of the current-day simulations: \<^verbatim>\<open>runSenateSimulation\<close> compares with
  \<^verbatim>\<open>SENATE_CONTROL_RULE.demAtLeast\<close>, \<^verbatim>\<open>runGovernorSimulation\<close> and \<^verbatim>\<open>runHouseSimulation\<close>
  with \<^verbatim>\<open>rules.majorityLine\<close>.
\<close>

definition currentControl :: "chamber \<Rightarrow> int \<Rightarrow> bool" where
  "currentControl modeKey dSeats =
     (case modeKey of
        Senate \<Rightarrow> dSeats \<ge> SENATE_CONTROL_RULE_demAtLeast
      | _ \<Rightarrow> dSeats \<ge> majorityLine (SEAT_RULES modeKey))"

record trial =
  wins :: "bool list"
  dSeats :: int
  demCtrl :: bool

text \<open>
  One iteration of the \<^verbatim>\<open>for (let s = 0; s < NUM_SIMS; s++)\<close> loop of the three current-day
  simulations, which differ in the rules, the swing range and the control test only.
\<close>

definition currentTrial :: "chamber \<Rightarrow> jsnum list \<Rightarrow> rng \<Rightarrow> nat \<Rightarrow> trial" where
  "currentTrial modeKey margins rnd k =
     (let swing = jsmul (jssub (jsmul (Fin (rnd k)) (Fin 2)) (Fin 1)) (Fin (swingRange modeKey));
          ws = seatLoop margins swing rnd (Suc k);
          ds = baseD (SEAT_RULES modeKey) + int (length (filter id ws))
      in \<lparr>wins = ws, dSeats = ds, demCtrl = currentControl modeKey ds\<rparr>)"

fun simLoop :: "nat \<Rightarrow> chamber \<Rightarrow> jsnum list \<Rightarrow> rng \<Rightarrow> nat \<Rightarrow> trial list" where
  "simLoop 0 modeKey margins rnd k = []"
| "simLoop (Suc s) modeKey margins rnd k =
     currentTrial modeKey margins rnd k # simLoop s modeKey margins rnd (k + 1 + length margins)"

section \<open>Seat histograms\<close>

record histogram =
  counts :: "nat list"
  min_seat :: int
  max_seat :: int
  isProb :: bool
  total_samples :: nat
  binSize :: int
  binOffset :: "int option"

definition bump :: "nat list \<Rightarrow> nat \<Rightarrow> nat list" where
  "bump cs i = cs[i := cs ! i + 1]"

definition buildRangeHistogram :: "int list \<Rightarrow> int \<Rightarrow> int \<Rightarrow> histogram" where
  "buildRangeHistogram samples showMin showMax =
     \<lparr>counts =
        foldl (\<lambda>cs v. if v < showMin \<or> v > showMax then cs else bump cs (nat (v - showMin)))
          (replicate (nat (showMax - showMin + 1)) 0) samples,
      min_seat = showMin, max_seat = showMax, isProb = False,
      total_samples = (if length samples = 0 then 1 else length samples),
      binSize = 1, binOffset = None\<rparr>"

text \<open>The running minimum and maximum start at plus and minus infinity (\<open>None\<close>).\<close>

fun minLoop :: "int option \<Rightarrow> int list \<Rightarrow> int option" where
  "minLoop m [] = m"
| "minLoop m (v # vs) =
     minLoop (case m of None \<Rightarrow> Some v | Some x \<Rightarrow> if v < x then Some v else Some x) vs"

fun maxLoop :: "int option \<Rightarrow> int list \<Rightarrow> int option" where
  "maxLoop m [] = m"
| "maxLoop m (v # vs) =
     maxLoop (case m of None \<Rightarrow> Some v | Some x \<Rightarrow> if v > x then Some v else Some x) vs"

definition toBinStart :: "int \<Rightarrow> int \<Rightarrow> int \<Rightarrow> int" where
  "toBinStart bs off v = ((v - off) div bs) * bs + off"

definition buildBinnedHistogram :: "int list \<Rightarrow> int \<Rightarrow> int \<Rightarrow> histogram" where
  "buildBinnedHistogram samples binSize0 binOffset0 =
     (let bs = max 1 binSize0;
          off = binOffset0;
          (mn, mx) = (case (minLoop None samples, maxLoop None samples) of
                        (Some a, Some b) \<Rightarrow> (a, b)
                      | _ \<Rightarrow> (0, 0));
          minB = toBinStart bs off mn;
          maxB = toBinStart bs off mx;
          n = max 1 ((maxB - minB) div bs + 1);
          cs = foldl (\<lambda>cs v. let idx = (toBinStart bs off v - minB) div bs
                              in if 0 \<le> idx \<and> idx < n then bump cs (nat idx) else cs)
                 (replicate (nat n) 0) samples
      in \<lparr>counts = cs, min_seat = minB, max_seat = minB + (n - 1) * bs + (bs - 1),
          isProb = False,
          total_samples = (if length samples = 0 then 1 else length samples),
          binSize = bs, binOffset = Some off\<rparr>)"

definition buildSeatHistogram :: "int list \<Rightarrow> chamber \<Rightarrow> histogram" where
  "buildSeatHistogram seatSamples modeKey =
     (case modeKey of
        House \<Rightarrow> buildBinnedHistogram seatSamples 12 2
      | Senate \<Rightarrow>
          buildRangeHistogram seatSamples (baseD (SEAT_RULES modeKey))
            (baseD (SEAT_RULES modeKey) + int (upSeats modeKey))
      | Governor \<Rightarrow> buildRangeHistogram seatSamples 21 31)"

text \<open>
  The result of a current-day simulation: the number of control wins, the seat total of
  every trial, the wins of every seat and the histogram. The ratios the source derives
  from them and prints with \<^verbatim>\<open>toFixed\<close> are left out.
\<close>

record simResult =
  demControl :: nat
  seatSamples :: "int list"
  seatDemWins :: "nat list"
  sims :: nat
  seatDistribution :: histogram

definition runSimulation :: "globals \<Rightarrow> chamber \<Rightarrow> pair option \<Rightarrow> rng \<Rightarrow> simResult" where
  "runSimulation g modeKey cachedIndNat rnd =
     (let margins = baselineMargins g modeKey cachedIndNat;
          ts = simLoop NUM_SIMS modeKey margins rnd 0;
          samples = map dSeats ts
      in \<lparr>demControl = length (filter demCtrl ts),
          seatSamples = samples,
          seatDemWins = map (\<lambda>i. length (filter (\<lambda>t. wins t ! i) ts)) [0..<length margins],
          sims = NUM_SIMS,
          seatDistribution = buildSeatHistogram samples modeKey\<rparr>)"

definition runHouseSimulation :: "globals \<Rightarrow> rng \<Rightarrow> simResult" where
  "runHouseSimulation g rnd = runSimulation g House None rnd"

definition runSenateSimulation :: "globals \<Rightarrow> pair option \<Rightarrow> rng \<Rightarrow> simResult" where
  "runSenateSimulation g cachedIndNat rnd = runSimulation g Senate cachedIndNat rnd"

definition runGovernorSimulation :: "globals \<Rightarrow> pair option \<Rightarrow> rng \<Rightarrow> simResult" where
  "runGovernorSimulation g cachedIndNat rnd = runSimulation g Governor cachedIndNat rnd"

lemma length_bump: "length (bump cs i) = length cs"
  by (simp add: bump_def)

lemma sum_list_bump:
  assumes "i < length cs"
  shows "sum_list (bump cs i) = sum_list cs + 1"
  using assms
proof (induction cs arbitrary: i)
  case Nil
  then show ?case by simp
next
  case (Cons c cs)
  show ?case
  proof (cases i)
    case 0
    then show ?thesis by (simp add: bump_def)
  next
    case (Suc j)
    with Cons.prems have "j < length cs" by simp
    from Cons.IH [OF this] Suc show ?thesis by (simp add: bump_def)
  qed
qed

lemma range_fold_sum:
  assumes "length cs = nat (hi - lo + 1)"
  shows "length (foldl (\<lambda>cs v. if v < lo \<or> v > hi then cs else bump cs (nat (v - lo))) cs vs) = length cs \<and>
         sum_list (foldl (\<lambda>cs v. if v < lo \<or> v > hi then cs else bump cs (nat (v - lo))) cs vs)
           = sum_list cs + length (filter (\<lambda>v. lo \<le> v \<and> v \<le> hi) vs)"
  using assms
proof (induction vs arbitrary: cs)
  case Nil
  show ?case by simp
next
  case (Cons v vs)
  show ?case
  proof (cases "v < lo \<or> v > hi")
    case True
    with Cons.IH [OF Cons.prems] show ?thesis by auto
  next
    case False
    then have i: "nat (v - lo) < length cs"
      using Cons.prems by auto
    have l: "length (bump cs (nat (v - lo))) = nat (hi - lo + 1)"
      using Cons.prems by (simp add: length_bump)
    from Cons.IH [OF l] False sum_list_bump [OF i] show ?thesis
      by (simp add: length_bump not_less)
  qed
qed

lemma buildRangeHistogram_sum:
  "sum_list (counts (buildRangeHistogram samples lo hi)) = length (filter (\<lambda>v. lo \<le> v \<and> v \<le> hi) samples)"
  using range_fold_sum [of "replicate (nat (hi - lo + 1)) 0" hi lo samples]
  by (simp add: buildRangeHistogram_def)

lemma minLoop_Some: "minLoop (Some x) vs \<noteq> None"
  by (induction vs arbitrary: x) auto

lemma maxLoop_Some: "maxLoop (Some x) vs \<noteq> None"
  by (induction vs arbitrary: x) auto

lemma minLoop_le:
  "minLoop m vs = Some a \<Longrightarrow> (\<forall>v \<in> set vs. a \<le> v) \<and> (\<forall>x. m = Some x \<longrightarrow> a \<le> x)"
proof (induction vs arbitrary: m)
  case Nil
  then show ?case by simp
next
  case (Cons v vs)
  from Cons.IH [OF Cons.prems [simplified]] show ?case
    by (cases m) (auto split: if_splits)
qed

lemma maxLoop_ge:
  "maxLoop m vs = Some a \<Longrightarrow> (\<forall>v \<in> set vs. v \<le> a) \<and> (\<forall>x. m = Some x \<longrightarrow> x \<le> a)"
proof (induction vs arbitrary: m)
  case Nil
  then show ?case by simp
next
  case (Cons v vs)
  from Cons.IH [OF Cons.prems [simplified]] show ?case
    by (cases m) (auto split: if_splits)
qed

lemma minmax_bounds:
  assumes "v \<in> set samples"
  shows "\<exists>a b. minLoop None samples = Some a \<and> maxLoop None samples = Some b \<and> a \<le> v \<and> v \<le> b"
proof -
  from assms obtain x xs where s: "samples = x # xs" by (cases samples) auto
  obtain a where a: "minLoop None samples = Some a"
    using minLoop_Some [of x xs] by (auto simp: s)
  obtain b where b: "maxLoop None samples = Some b"
    using maxLoop_Some [of x xs] by (auto simp: s)
  from minLoop_le [OF a] maxLoop_ge [OF b] assms a b show ?thesis by auto
qed

lemma toBinStart_mono:
  assumes "0 < bs" and "a \<le> b"
  shows "toBinStart bs off a \<le> toBinStart bs off b"
proof -
  have "(a - off) div bs \<le> (b - off) div bs"
    using assms by (intro zdiv_mono1) simp_all
  then show ?thesis
    using assms(1) by (simp add: toBinStart_def mult_right_mono)
qed

lemma binned_fold_sum:
  assumes "length cs = nat n"
    and "\<forall>v \<in> set vs. 0 \<le> f v \<and> f v < n"
  shows "sum_list (foldl (\<lambda>cs v. let idx = f v in if 0 \<le> idx \<and> idx < n then bump cs (nat idx) else cs) cs vs)
           = sum_list cs + length vs"
  using assms
proof (induction vs arbitrary: cs)
  case Nil
  show ?case by simp
next
  case (Cons v vs)
  from Cons.prems have r: "0 \<le> f v" "f v < n" by simp_all
  then have i: "nat (f v) < length cs" using Cons.prems(1) by simp
  have l: "length (bump cs (nat (f v))) = nat n"
    using Cons.prems(1) by (simp add: length_bump)
  from Cons.prems(2) have rest: "\<forall>v \<in> set vs. 0 \<le> f v \<and> f v < n" by simp
  from Cons.IH [OF l rest] r sum_list_bump [OF i] show ?case
    by (simp add: Let_def)
qed

lemma buildBinnedHistogram_sum:
  "sum_list (counts (buildBinnedHistogram samples bs0 off)) = length samples"
proof -
  define bs where "bs = max 1 bs0"
  define mn where "mn = (case (minLoop None samples, maxLoop None samples) of
                        (Some a, Some b) \<Rightarrow> a | _ \<Rightarrow> 0)"
  define mx where "mx = (case (minLoop None samples, maxLoop None samples) of
                        (Some a, Some b) \<Rightarrow> b | _ \<Rightarrow> 0)"
  define minB where "minB = toBinStart bs off mn"
  define maxB where "maxB = toBinStart bs off mx"
  define n where "n = max 1 ((maxB - minB) div bs + 1)"
  define f where "f = (\<lambda>v. (toBinStart bs off v - minB) div bs)"
  have bs: "0 < bs" by (simp add: bs_def)
  have pair_eq: "(case (minLoop None samples, maxLoop None samples) of
                        (Some a, Some b) \<Rightarrow> (a, b) | _ \<Rightarrow> (0, 0)) = (mn, mx)"
    by (simp add: mn_def mx_def split: option.splits)
  have inr: "\<forall>v \<in> set samples. 0 \<le> f v \<and> f v < n"
  proof
    fix v assume "v \<in> set samples"
    from minmax_bounds [OF this] have "mn \<le> v" "v \<le> mx"
      by (auto simp: mn_def mx_def)
    then have lo: "minB \<le> toBinStart bs off v" and hi: "toBinStart bs off v \<le> maxB"
      unfolding minB_def maxB_def using bs by (simp_all add: toBinStart_mono)
    from lo bs have "0 \<le> f v"
      by (simp add: f_def pos_imp_zdiv_nonneg_iff)
    moreover from hi bs have "f v \<le> (maxB - minB) div bs"
      unfolding f_def by (intro zdiv_mono1) simp_all
    ultimately show "0 \<le> f v \<and> f v < n" by (simp add: n_def)
  qed
  have "counts (buildBinnedHistogram samples bs0 off) =
          foldl (\<lambda>cs v. let idx = f v in if 0 \<le> idx \<and> idx < n then bump cs (nat idx) else cs)
            (replicate (nat n) 0) samples"
    unfolding buildBinnedHistogram_def bs_def [symmetric] Let_def pair_eq f_def n_def minB_def maxB_def
    by simp
  then show ?thesis
    using binned_fold_sum [of "replicate (nat n) 0" n samples f] inr by simp
qed

lemma length_fillMargins: "length (fillMargins n ms) = n"
  by (induction n ms rule: fillMargins.induct) simp_all

lemma fillMargins_Nil: "fillMargins n [] = replicate n (Fin 0)"
  by (induction n) simp_all

lemma length_seatLoop: "length (seatLoop ms swing rnd k) = length ms"
  by (induction ms arbitrary: k) simp_all

lemma currentTrial_dSeats_bounds:
  "baseD (SEAT_RULES modeKey) \<le> dSeats (currentTrial modeKey ms rnd k) \<and>
   dSeats (currentTrial modeKey ms rnd k) \<le> baseD (SEAT_RULES modeKey) + int (length ms)"
proof -
  have "length (filter id (seatLoop ms sw rnd (Suc k))) \<le> length ms" for sw
    using length_filter_le [of id "seatLoop ms sw rnd (Suc k)"]
    by (simp add: length_seatLoop)
  then show ?thesis by (simp add: currentTrial_def Let_def)
qed

lemma length_simLoop: "length (simLoop n modeKey ms rnd k) = n"
  by (induction n arbitrary: k) simp_all

lemma simLoop_dSeats_bounds:
  "t \<in> set (simLoop n modeKey ms rnd k) \<Longrightarrow>
     baseD (SEAT_RULES modeKey) \<le> dSeats t \<and> dSeats t \<le> baseD (SEAT_RULES modeKey) + int (length ms)"
proof (induction n arbitrary: k)
  case 0
  then show ?case by simp
next
  case (Suc n)
  then show ?case using currentTrial_dSeats_bounds [of modeKey ms rnd k] by auto
qed

lemma length_seatSamples: "length (seatSamples (runSimulation g modeKey ind rnd)) = NUM_SIMS"
  by (simp add: runSimulation_def Let_def length_simLoop)

declare dbl_0 [simp] dbl_1 [simp] dbl_numeral [simp] dbl_neg_numeral [simp]

lemma toFloat32_0 [simp]: "toFloat32 (Fin 0) = Fin 0"
  by (simp add: toFloat32_def fround_def)

lemma seatLoop_zero:
  "seatLoop (replicate n (Fin 0)) (Fin 0) rnd k = map (\<lambda>i. rnd (k + i) < 1 / 2) [0..<n]"
proof (induction n arbitrary: k)
  case 0
  show ?case by simp
next
  case (Suc n)
  have "map (\<lambda>i. rnd (k + i) < 1 / 2) [0..<Suc n]
          = (rnd k < 1 / 2) # map (\<lambda>i. rnd (Suc k + i) < 1 / 2) [0..<n]"
    by (simp add: upt_conv_Cons map_Suc_upt [symmetric] del: upt_Suc)
  with Suc.IH [of "Suc k"] show ?case
    by (simp add: winProbD_fast_zero_aux del: upt_Suc)
qed

text \<open>A state with no data at all: every seat of a chamber gets the neutral margin 0.\<close>

definition noData :: globals where
  "noData = \<lparr>DATA = (\<lambda>m. \<lparr>gb = None, ratios = [], polls = Map.empty\<rparr>),
             STATE_POLL_DATA = (\<lambda>m. Map.empty)\<rparr>"

lemma baselineMargins_noData:
  "baselineMargins noData modeKey ind = replicate (upSeats modeKey) (Fin 0)"
  by (simp add: baselineMargins_def ratioKeys_def noData_def fillMargins_Nil)

lemma upSeats_simps: "upSeats Senate = 35" "upSeats Governor = 36" "upSeats House = 435"
  by (simp_all add: upSeats_def)

lemma currentTrial_half:
  "currentTrial modeKey (replicate n (Fin 0)) (\<lambda>i. 1 / 2) k =
     \<lparr>wins = replicate n False, dSeats = baseD (SEAT_RULES modeKey),
      demCtrl = currentControl modeKey (baseD (SEAT_RULES modeKey))\<rparr>"
proof -
  have "jsmul (jssub (jsmul (Fin (1 / 2)) (Fin 2)) (Fin 1)) (Fin (swingRange modeKey)) = Fin 0"
    by (simp add: jssub_def)
  then show ?thesis
    by (simp add: currentTrial_def Let_def seatLoop_zero map_replicate_const)
qed

lemma simLoop_half:
  "simLoop s modeKey (replicate n (Fin 0)) (\<lambda>i. 1 / 2) k =
     replicate s \<lparr>wins = replicate n False, dSeats = baseD (SEAT_RULES modeKey),
                  demCtrl = currentControl modeKey (baseD (SEAT_RULES modeKey))\<rparr>"
  by (induction s arbitrary: k) (simp_all add: currentTrial_half)

lemma governor_samples_half:
  "seatSamples (runGovernorSimulation noData None (\<lambda>i. 1 / 2)) = replicate NUM_SIMS 6"
  by (simp add: runGovernorSimulation_def runSimulation_def Let_def baselineMargins_noData
      simLoop_half)

lemma seatDistribution_eq:
  "seatDistribution (runSimulation g modeKey ind rnd)
     = buildSeatHistogram (seatSamples (runSimulation g modeKey ind rnd)) modeKey"
  by (simp add: runSimulation_def Let_def)

lemma senate_samples_in_range:
  assumes "v \<in> set (seatSamples (runSimulation g Senate ind rnd))"
  shows "34 \<le> v \<and> v \<le> 69"
proof -
  from assms obtain t where t: "t \<in> set (simLoop NUM_SIMS Senate (baselineMargins g Senate ind) rnd 0)"
    and v: "v = dSeats t"
    by (auto simp: runSimulation_def Let_def)
  from simLoop_dSeats_bounds [OF t] v show ?thesis
    by (simp add: baselineMargins_def length_fillMargins upSeats_simps)
qed

text \<open>
  C2. The histogram returned with the house result (bins of width 12) and the one
  returned with the senate result (one bin per seat count from 34 to 69) have counts
  that add up to the number of trials, 10000: every trial total falls into one bin. The
  governor histogram has one bin per seat count from 21 to 31 only, and its counts add
  up to the number of trials whose total lies in that range.
\<close>

theorem seat_histogram_counts:
  "sum_list (counts (seatDistribution (runHouseSimulation g rnd))) = NUM_SIMS \<and>
   sum_list (counts (seatDistribution (runSenateSimulation g ind rnd))) = NUM_SIMS \<and>
   sum_list (counts (seatDistribution (runGovernorSimulation g ind rnd)))
     = length (filter (\<lambda>v. 21 \<le> v \<and> v \<le> 31) (seatSamples (runGovernorSimulation g ind rnd))) \<and>
   length (seatSamples (runGovernorSimulation g ind rnd)) = NUM_SIMS"
proof (intro conjI)
  show "sum_list (counts (seatDistribution (runHouseSimulation g rnd))) = NUM_SIMS"
    unfolding runHouseSimulation_def seatDistribution_eq
    by (simp add: buildSeatHistogram_def buildBinnedHistogram_sum length_seatSamples)
next
  have "filter (\<lambda>v. 34 \<le> v \<and> v \<le> 69) (seatSamples (runSimulation g Senate ind rnd))
          = seatSamples (runSimulation g Senate ind rnd)"
    using senate_samples_in_range [of _ g ind rnd] by (intro filter_True) blast
  then show "sum_list (counts (seatDistribution (runSenateSimulation g ind rnd))) = NUM_SIMS"
    unfolding runSenateSimulation_def seatDistribution_eq
    by (simp add: buildSeatHistogram_def buildRangeHistogram_sum length_seatSamples upSeats_simps)
next
  show "sum_list (counts (seatDistribution (runGovernorSimulation g ind rnd)))
     = length (filter (\<lambda>v. 21 \<le> v \<and> v \<le> 31) (seatSamples (runGovernorSimulation g ind rnd)))"
    unfolding runGovernorSimulation_def seatDistribution_eq
    by (simp add: buildSeatHistogram_def buildRangeHistogram_sum)
next
  show "length (seatSamples (runGovernorSimulation g ind rnd)) = NUM_SIMS"
    by (simp add: runGovernorSimulation_def length_seatSamples)
qed

theorem seat_histogram_counts_witness:
  "sum_list (counts (seatDistribution (runHouseSimulation noData (\<lambda>i. 1 / 2)))) = 10000 \<and>
   sum_list (counts (seatDistribution (runSenateSimulation noData None (\<lambda>i. 1 / 2)))) = 10000 \<and>
   sum_list (counts (seatDistribution (runGovernorSimulation noData None (\<lambda>i. 1 / 2)))) = 0"
  using seat_histogram_counts [of noData "\<lambda>i. 1 / 2" None]
  by (simp add: governor_samples_half NUM_SIMS_def)

text \<open>
  With no data every governor seat has margin 0; when every draw of \<^verbatim>\<open>Math.random()\<close> is
  1/2 no seat is won, every trial total is the 6 seats held, and none of the 10000
  totals is counted in the range 21 to 31.
\<close>

theorem governor_histogram_counterexample:
  "seatSamples (runGovernorSimulation noData None (\<lambda>i. 1 / 2)) = replicate 10000 6 \<and>
   sum_list (counts (seatDistribution (runGovernorSimulation noData None (\<lambda>i. 1 / 2)))) \<noteq> NUM_SIMS"
proof -
  have "sum_list (counts (seatDistribution (runGovernorSimulation noData None (\<lambda>i. 1 / 2))))
          = length (filter (\<lambda>v. 21 \<le> v \<and> v \<le> 31) (replicate NUM_SIMS (6::int)))"
    unfolding runGovernorSimulation_def seatDistribution_eq
    unfolding runGovernorSimulation_def [symmetric] governor_samples_half
    by (simp add: buildSeatHistogram_def buildRangeHistogram_sum)
  also have "\<dots> = 0" by simp
  finally have "sum_list (counts (seatDistribution (runGovernorSimulation noData None (\<lambda>i. 1 / 2)))) = 0" .
  then have "sum_list (counts (seatDistribution (runGovernorSimulation noData None (\<lambda>i. 1 / 2)))) \<noteq> NUM_SIMS"
    by (simp only: NUM_SIMS_def)
  then show ?thesis
    by (simp add: governor_samples_half NUM_SIMS_def)
qed

section \<open>The Monte Carlo trial of the time-series engine\<close>

text \<open>
  One iteration of the \<^verbatim>\<open>for (let s = 0; s < NUM_SIMS; s++)\<close> loop of
  \<^verbatim>\<open>runOddsOverTimeState\<close>, for the senate and the governors: the same draws in the same
  order as the current-day loop, over the margins of the day. The control test is
  \<^verbatim>\<open>(dSeats >= controlLine) || (tieIsDem && dSeats === tieSeat)\<close>.
\<close>

definition controlLine :: "chamber \<Rightarrow> int" where
  "controlLine modeKey =
     (if modeKey = Senate then SENATE_CONTROL_RULE_demAtLeast else majorityLine (SEAT_RULES modeKey))"

definition tieIsDem :: "chamber \<Rightarrow> bool" where
  "tieIsDem modeKey = (modeKey = Governor)"

definition tieSeat :: "chamber \<Rightarrow> int" where
  "tieSeat modeKey = majorityLine (SEAT_RULES modeKey) - 1"

definition tsTrial :: "chamber \<Rightarrow> jsnum list \<Rightarrow> rng \<Rightarrow> nat \<Rightarrow> trial" where
  "tsTrial modeKey margins rnd k =
     (let swing = jsmul (jssub (jsmul (Fin (rnd k)) (Fin 2)) (Fin 1)) (Fin SENATE_MC_SWING_RANGE_PTS);
          ws = seatLoop margins swing rnd (Suc k);
          dWins = int (length (filter id ws));
          ds = baseD (SEAT_RULES modeKey) + dWins;
          isDemCtrl = (ds \<ge> controlLine modeKey \<or> (tieIsDem modeKey \<and> ds = tieSeat modeKey))
      in \<lparr>wins = ws, dSeats = ds, demCtrl = isDemCtrl\<rparr>)"

text \<open>Where the two trials agree, on the same margins and the same draws.\<close>

lemma tsTrial_seats:
  assumes "modeKey = Senate \<or> modeKey = Governor"
  shows "wins (tsTrial modeKey margins rnd k) = wins (currentTrial modeKey margins rnd k)"
    and "dSeats (tsTrial modeKey margins rnd k) = dSeats (currentTrial modeKey margins rnd k)"
  using assms by (auto simp: tsTrial_def currentTrial_def swingRange_def Let_def)

lemma tsTrial_senate_control:
  "demCtrl (tsTrial Senate margins rnd k) = demCtrl (currentTrial Senate margins rnd k)"
  by (simp add: tsTrial_def currentTrial_def swingRange_def Let_def controlLine_def tieIsDem_def
      currentControl_def)

lemma tsTrial_governor_control:
  "demCtrl (tsTrial Governor margins rnd k) \<longleftrightarrow>
     demCtrl (currentTrial Governor margins rnd k) \<or> dSeats (currentTrial Governor margins rnd k) = 25"
  by (simp add: tsTrial_def currentTrial_def swingRange_def Let_def controlLine_def tieIsDem_def
      tieSeat_def currentControl_def)

text \<open>
  Draws for one trial of 36 seats: the swing draw 1/2 (swing 0), then 19 draws of 1/4
  (below the win probability 1/2 at margin 0) and 17 draws of 3/4.
\<close>

definition tieDraws :: rng where
  "tieDraws i = (if i = 0 then 1 / 2 else if i \<le> 19 then 1 / 4 else 3 / 4)"

lemma tieDraws_wins:
  "length (filter id (seatLoop (replicate 36 (Fin 0)) (Fin 0) tieDraws (Suc 0))) = 19"
proof -
  have "seatLoop (replicate 36 (Fin 0)) (Fin 0) tieDraws (Suc 0)
          = map (\<lambda>i. tieDraws (Suc 0 + i) < 1 / 2) [0..<36]"
    by (rule seatLoop_zero)
  also have "\<dots> = map (\<lambda>i. i < 19) [0..<36]"
    by (rule map_cong) (auto simp: tieDraws_def)
  finally have "filter id (seatLoop (replicate 36 (Fin 0)) (Fin 0) tieDraws (Suc 0))
                  = filter id (map (\<lambda>i. i < 19) [0..<36])"
    by simp
  also have "\<dots> = map (\<lambda>i. i < 19) (filter (\<lambda>i. i < 19) [0..<36])"
    by (simp add: filter_map comp_def)
  also have "filter (\<lambda>i. i < 19) [0..<36] = [0..<(19::nat)]"
    by code_simp
  finally have "length (filter id (seatLoop (replicate 36 (Fin 0)) (Fin 0) tieDraws (Suc 0)))
                  = length (map (\<lambda>i. i < 19) [0..<(19::nat)])"
    by (simp only:)
  then show ?thesis by simp
qed

text \<open>
  C1. On the same margins and the same draws the two trials give the same seat total,
  and for the senate the same control classification. For the governors they do not:
  at a total of exactly 25 the time-series trial counts a control win and the
  current-day trial of \<^verbatim>\<open>runGovernorSimulation\<close> does not.
\<close>

theorem governor_tie_divergence:
  "dSeats (tsTrial Governor (replicate 36 (Fin 0)) tieDraws 0) = 25 \<and>
   dSeats (currentTrial Governor (replicate 36 (Fin 0)) tieDraws 0) = 25 \<and>
   demCtrl (tsTrial Governor (replicate 36 (Fin 0)) tieDraws 0) \<and>
   \<not> demCtrl (currentTrial Governor (replicate 36 (Fin 0)) tieDraws 0)"
proof -
  have sw: "jsmul (jssub (jsmul (Fin (tieDraws 0)) (Fin 2)) (Fin 1)) (Fin SENATE_MC_SWING_RANGE_PTS) = Fin 0"
    by (simp add: tieDraws_def jssub_def)
  have cur: "dSeats (currentTrial Governor (replicate 36 (Fin 0)) tieDraws 0) = 25"
    by (simp only: currentTrial_def Let_def swingRange_def chamber.case sw)
      (simp add: tieDraws_wins)
  have ts: "dSeats (tsTrial Governor (replicate 36 (Fin 0)) tieDraws 0) = 25"
    using cur tsTrial_seats(2) [of Governor] by simp
  have "\<not> demCtrl (currentTrial Governor (replicate 36 (Fin 0)) tieDraws 0)"
    using cur by (simp add: currentTrial_def Let_def currentControl_def)
  moreover have "demCtrl (tsTrial Governor (replicate 36 (Fin 0)) tieDraws 0)"
    using cur by (simp add: tsTrial_governor_control)
  ultimately show ?thesis using cur ts by simp
qed

section \<open>Columnar encoding of the per-seat series\<close>

text \<open>
  \<^verbatim>\<open>encodeStateOddsColumnar(stateOddsMap)\<close>. The map is the list of the object's entries
  in their order; a point is \<^verbatim>\<open>{date, pDem, margin}\<close> with the date a string and the two
  values copied as they are. A lookup in \<^verbatim>\<open>dateIndex\<close> that finds nothing is \<open>None\<close>
  (\<^verbatim>\<open>undefined\<close>), so the indices are optional numbers.
\<close>

record oddsEntry =
  date :: string
  pDem :: jsnum
  margin :: jsnum

datatype seatEncoding =
    Dense nat "jsnum list" "jsnum list"
  | Sparse "nat option list" "jsnum list" "jsnum list"

record columnar =
  dates :: "string list"
  states :: "(string \<times> seatEncoding) list"

text \<open>The set of all dates, in insertion order.\<close>

definition addDate :: "oddsEntry \<Rightarrow> string list \<Rightarrow> string list" where
  "addDate entry acc = (if oddsEntry.date entry \<in> set acc then acc else acc @ [oddsEntry.date entry])"

definition collectDates :: "(string \<times> oddsEntry list) list \<Rightarrow> string list" where
  "collectDates m = fold (\<lambda>(key, arr) acc. fold addDate arr acc) m []"

definition fromEntries :: "(string \<times> nat) list \<Rightarrow> (string \<rightharpoonup> nat)" where
  "fromEntries kvs = fold (\<lambda>(k, v) m. m(k \<mapsto> v)) kvs Map.empty"

definition consecutive :: "nat option list \<Rightarrow> nat \<Rightarrow> bool" where
  "consecutive indices i =
     (i = 0 \<or> (case (indices ! i, indices ! (i - 1)) of
                  (Some v, Some u) \<Rightarrow> v = u + 1
                | _ \<Rightarrow> False))"

definition isDense :: "nat option list \<Rightarrow> bool" where
  "isDense indices =
     (length indices > 0 \<and>
      (case (last indices, hd indices) of
         (Some l, Some f) \<Rightarrow> int (length indices) = int l - int f + 1
       | _ \<Rightarrow> False) \<and>
      list_all (consecutive indices) [0..<length indices])"

definition encodeSeat :: "(string \<rightharpoonup> nat) \<Rightarrow> oddsEntry list \<Rightarrow> seatEncoding" where
  "encodeSeat dateIndex arr =
     (let indices = map (\<lambda>entry. dateIndex (oddsEntry.date entry)) arr;
          p = map pDem arr;
          m = map margin arr
      in if isDense indices
         then (case hd indices of Some s \<Rightarrow> Dense s p m | None \<Rightarrow> Sparse indices p m)
         else Sparse indices p m)"

definition encodeStateOddsColumnar :: "(string \<times> oddsEntry list) list \<Rightarrow> columnar" where
  "encodeStateOddsColumnar stateOddsMap =
     (let allDates = collectDates stateOddsMap;
          ds = sort allDates;
          dateIndex = fromEntries (zip ds [0..<length ds])
      in \<lparr>dates = ds,
          states = map (\<lambda>(key, arr). (key, encodeSeat dateIndex arr)) stateOddsMap\<rparr>)"

text \<open>
  Modelled from the spec: the decoder of the columnar format, which is not among the
  sources. A dense entry \<^verbatim>\<open>{s, p, m}\<close> stands for the consecutive shared dates
  \<open>s, s + 1, \<dots>\<close> paired with the values, a sparse entry \<^verbatim>\<open>{i, p, m}\<close> for the dates
  \<open>dates[i[k]]\<close> paired with \<open>p[k]\<close> and \<open>m[k]\<close>. It fails (\<open>None\<close>) on an index that is
  missing or beyond the shared dates.
\<close>

definition decodeSeat :: "string list \<Rightarrow> seatEncoding \<Rightarrow> oddsEntry list option" where
  "decodeSeat ds enc =
     (case enc of
        Dense s p m \<Rightarrow>
          if s + length p \<le> length ds \<and> length m = length p
          then Some (map (\<lambda>k. \<lparr>date = ds ! (s + k), pDem = p ! k, margin = m ! k\<rparr>) [0..<length p])
          else None
      | Sparse ix p m \<Rightarrow>
          if length ix = length p \<and> length m = length p
             \<and> list_all (\<lambda>i. case i of Some j \<Rightarrow> j < length ds | None \<Rightarrow> False) ix
          then Some (map (\<lambda>k. \<lparr>date = ds ! (case ix ! k of Some j \<Rightarrow> j | None \<Rightarrow> 0),
                                 pDem = p ! k, margin = m ! k\<rparr>) [0..<length p])
          else None)"

lemma fold_addDate: "set (fold addDate arr acc) = set acc \<union> oddsEntry.date ` set arr"
  by (induction arr arbitrary: acc) (auto simp: addDate_def)

lemma fold_addDate_distinct: "distinct acc \<Longrightarrow> distinct (fold addDate arr acc)"
  by (induction arr arbitrary: acc) (auto simp: addDate_def)

lemma collect_aux:
  "set (fold (\<lambda>(key, arr) acc. fold addDate arr acc) m acc)
     = set acc \<union> (\<Union>(key, arr) \<in> set m. oddsEntry.date ` set arr) \<and>
   (distinct acc \<longrightarrow> distinct (fold (\<lambda>(key, arr) acc. fold addDate arr acc) m acc))"
proof (induction m arbitrary: acc)
  case Nil
  show ?case by simp
next
  case (Cons x m)
  obtain key arr where x: "x = (key, arr)" by (cases x)
  show ?case
    using Cons.IH [of "fold addDate arr acc"]
    by (auto simp: x fold_addDate fold_addDate_distinct)
qed

lemma set_collectDates:
  "set (collectDates m) = (\<Union>(key, arr) \<in> set m. oddsEntry.date ` set arr)"
  using collect_aux [of m "[]"] by (simp add: collectDates_def)

lemma distinct_collectDates: "distinct (collectDates m)"
  using collect_aux [of m "[]"] by (simp add: collectDates_def)

lemma fold_upd_map_of:
  assumes "distinct (map fst kvs)"
  shows "fold (\<lambda>(k, v) m. m(k \<mapsto> v)) kvs m0 k'
           = (case map_of kvs k' of Some v \<Rightarrow> Some v | None \<Rightarrow> m0 k')"
  using assms
proof (induction kvs arbitrary: m0)
  case Nil
  show ?case by simp
next
  case (Cons x kvs)
  obtain k v where x: "x = (k, v)" by (cases x)
  from Cons.prems have d: "distinct (map fst kvs)" and nk: "k \<notin> fst ` set kvs"
    by (simp_all add: x)
  from nk have none: "map_of kvs k = None"
    by (simp add: map_of_eq_None_iff)
  show ?case
    using Cons.IH [OF d, of "m0(k \<mapsto> v)"] none
    by (auto simp: x split: option.splits)
qed

lemma dateIndex_nth:
  assumes "distinct ds" and "j < length ds"
  shows "fromEntries (zip ds [0..<length ds]) (ds ! j) = Some j"
proof -
  have "distinct (map fst (zip ds [0..<length ds]))"
    using assms(1) by simp
  from fold_upd_map_of [OF this, of Map.empty "ds ! j"]
  have "fromEntries (zip ds [0..<length ds]) (ds ! j)
          = (case map_of (zip ds [0..<length ds]) (ds ! j) of Some v \<Rightarrow> Some v | None \<Rightarrow> None)"
    by (simp add: fromEntries_def)
  moreover have "map_of (zip ds [0..<length ds]) (ds ! j) = Some ([0..<length ds] ! j)"
    using assms by (intro map_of_zip_nth) simp_all
  ultimately show ?thesis using assms(2) by simp
qed

lemma dateIndex_mem:
  assumes "distinct ds" and "d \<in> set ds"
  shows "\<exists>j < length ds. fromEntries (zip ds [0..<length ds]) d = Some j \<and> ds ! j = d"
proof -
  from assms(2) obtain j where "j < length ds" "ds ! j = d"
    by (auto simp: in_set_conv_nth)
  with dateIndex_nth [OF assms(1), of j] show ?thesis by auto
qed

lemma dense_nth:
  assumes "isDense indices" and "hd indices = Some s" and "k < length indices"
  shows "indices ! k = Some (s + k)"
  using assms(3)
proof (induction k)
  case 0
  with assms(2) show ?case by (cases indices) simp_all
next
  case (Suc k)
  then have k: "k < length indices" by simp
  have "consecutive indices (Suc k)"
    using assms(1) Suc.prems by (simp add: isDense_def list_all_iff)
  with Suc.IH [OF k] show ?case
    by (auto simp: consecutive_def split: option.splits)
qed

lemma entry_eq:
  "\<lparr>date = oddsEntry.date e, pDem = pDem e, margin = margin e\<rparr> = (e :: oddsEntry)"
  by simp

lemma encodeSeat_decode:
  assumes d: "distinct ds" and sub: "oddsEntry.date ` set arr \<subseteq> set ds"
    and di: "dateIndex = fromEntries (zip ds [0..<length ds])"
  shows "decodeSeat ds (encodeSeat dateIndex arr) = Some arr"
proof -
  define indices where "indices = map (\<lambda>entry. dateIndex (oddsEntry.date entry)) arr"
  have len: "length indices = length arr" by (simp add: indices_def)
  have idx: "\<exists>j < length ds. indices ! k = Some j \<and> ds ! j = oddsEntry.date (arr ! k)"
    if "k < length arr" for k
  proof -
    from that sub have "oddsEntry.date (arr ! k) \<in> set ds" by auto
    from dateIndex_mem [OF d this] that show ?thesis
      by (auto simp: indices_def di)
  qed
  have all: "list_all (\<lambda>i. case i of Some j \<Rightarrow> j < length ds | None \<Rightarrow> False) indices"
    unfolding list_all_length
  proof (intro allI impI)
    fix k assume "k < length indices"
    with idx [of k] len show "case indices ! k of Some j \<Rightarrow> j < length ds | None \<Rightarrow> False"
      by auto
  qed
  have rebuild: "map (\<lambda>k. \<lparr>date = f k, pDem = map pDem arr ! k, margin = map margin arr ! k\<rparr>)
                 [0..<length arr] = arr"
    if "\<And>k. k < length arr \<Longrightarrow> f k = oddsEntry.date (arr ! k)" for f
  proof (rule nth_equalityI)
    show "length (map (\<lambda>k. \<lparr>date = f k, pDem = map pDem arr ! k, margin = map margin arr ! k\<rparr>)
                 [0..<length arr]) = length arr" by simp
  next
    fix k
    assume "k < length (map (\<lambda>k. \<lparr>date = f k, pDem = map pDem arr ! k, margin = map margin arr ! k\<rparr>)
                 [0..<length arr])"
    then have k: "k < length arr" by simp
    with that [OF k] show "map (\<lambda>k. \<lparr>date = f k, pDem = map pDem arr ! k, margin = map margin arr ! k\<rparr>)
                 [0..<length arr] ! k = arr ! k"
      by simp
  qed
  have sparse: "decodeSeat ds (Sparse indices (map pDem arr) (map margin arr)) = Some arr"
  proof -
    have "(case indices ! k of Some j \<Rightarrow> j | None \<Rightarrow> 0) = j" if "indices ! k = Some j" for k j
      using that by simp
    then have "ds ! (case indices ! k of Some j \<Rightarrow> j | None \<Rightarrow> 0) = oddsEntry.date (arr ! k)"
      if "k < length arr" for k
      using idx [OF that] by auto
    from rebuild [OF this] all len show ?thesis
      by (simp add: decodeSeat_def)
  qed
  show ?thesis
  proof (cases "isDense indices")
    case False
    with sparse show ?thesis
      by (simp add: encodeSeat_def indices_def [symmetric])
  next
    case True
    then have ne: "indices \<noteq> []" by (auto simp: isDense_def)
    then have arr_ne: "0 < length arr" using len by (cases indices) auto
    from idx [OF arr_ne] obtain s where s: "hd indices = Some s"
      using ne by (cases indices) auto
    have nth: "indices ! k = Some (s + k)" if "k < length arr" for k
      using dense_nth [OF True s] that len by simp
    have dt: "ds ! (s + k) = oddsEntry.date (arr ! k)" if "k < length arr" for k
      using idx [OF that] nth [OF that] by auto
    have last_in: "length arr - 1 < length arr" using arr_ne by simp
    from idx [OF last_in] nth [OF last_in]
    have "s + (length arr - 1) < length ds" by auto
    then have bound: "s + length arr \<le> length ds" using arr_ne by simp
    have "decodeSeat ds (Dense s (map pDem arr) (map margin arr)) = Some arr"
      using rebuild [OF dt] bound by (simp add: decodeSeat_def)
    with True s show ?thesis
      by (simp add: encodeSeat_def indices_def [symmetric])
  qed
qed

text \<open>
  C8. For every seat of the map, in the order of its entries, the encoded entry carries
  the seat's key, and decoding it against the shared dates gives back the seat's list of
  points: the same dates and values in the same order.
\<close>

theorem columnar_roundtrip:
  "length (states (encodeStateOddsColumnar stateOddsMap)) = length stateOddsMap \<and>
   (\<forall>i < length stateOddsMap.
      fst (states (encodeStateOddsColumnar stateOddsMap) ! i) = fst (stateOddsMap ! i) \<and>
      decodeSeat (dates (encodeStateOddsColumnar stateOddsMap))
        (snd (states (encodeStateOddsColumnar stateOddsMap) ! i)) = Some (snd (stateOddsMap ! i)))"
proof (intro conjI allI impI)
  show "length (states (encodeStateOddsColumnar stateOddsMap)) = length stateOddsMap"
    by (simp add: encodeStateOddsColumnar_def Let_def)
next
  fix i assume i: "i < length stateOddsMap"
  define ds where "ds = sort (collectDates stateOddsMap)"
  define dateIndex where "dateIndex = fromEntries (zip ds [0..<length ds])"
  obtain key arr where ka: "stateOddsMap ! i = (key, arr)" by (cases "stateOddsMap ! i")
  have d: "distinct ds" by (simp add: ds_def distinct_collectDates)
  have "(key, arr) \<in> set stateOddsMap" using i ka by (metis nth_mem)
  then have sub: "oddsEntry.date ` set arr \<subseteq> set ds"
    by (auto simp: ds_def set_collectDates)
  have st: "states (encodeStateOddsColumnar stateOddsMap) ! i = (key, encodeSeat dateIndex arr)"
    using i ka by (simp add: encodeStateOddsColumnar_def Let_def ds_def dateIndex_def)
  have dd: "dates (encodeStateOddsColumnar stateOddsMap) = ds"
    by (simp add: encodeStateOddsColumnar_def Let_def ds_def)
  show "fst (states (encodeStateOddsColumnar stateOddsMap) ! i) = fst (stateOddsMap ! i)"
    by (simp add: st ka)
  show "decodeSeat (dates (encodeStateOddsColumnar stateOddsMap))
        (snd (states (encodeStateOddsColumnar stateOddsMap) ! i)) = Some (snd (stateOddsMap ! i))"
    using encodeSeat_decode [OF d sub dateIndex_def] by (simp add: st ka dd)
qed

definition sampleOdds :: "(string \<times> oddsEntry list) list" where
  "sampleOdds =
     [(''AZ'', [\<lparr>date = ''2026-01-01'', pDem = Fin 0.55, margin = Fin (- 1.2)\<rparr>,
               \<lparr>date = ''2026-01-02'', pDem = Fin 0.56, margin = Fin (- 1.3)\<rparr>]),
      (''GA'', [\<lparr>date = ''2026-01-01'', pDem = Fin 0.4, margin = Fin 2\<rparr>,
               \<lparr>date = ''2026-01-03'', pDem = NaN, margin = Fin 2.5\<rparr>])]"

lemma sampleOdds_encoded:
  "encodeStateOddsColumnar sampleOdds =
     \<lparr>dates = [''2026-01-01'', ''2026-01-02'', ''2026-01-03''],
      states = [(''AZ'', Dense 0 [Fin 0.55, Fin 0.56] [Fin (- 1.2), Fin (- 1.3)]),
                (''GA'', Sparse [Some 0, Some 2] [Fin 0.4, NaN] [Fin 2, Fin 2.5])]\<rparr>"
  by code_simp

theorem columnar_roundtrip_witness:
  "snd (states (encodeStateOddsColumnar sampleOdds) ! 0)
     = Dense 0 [Fin 0.55, Fin 0.56] [Fin (- 1.2), Fin (- 1.3)] \<and>
   snd (states (encodeStateOddsColumnar sampleOdds) ! 1)
     = Sparse [Some 0, Some 2] [Fin 0.4, NaN] [Fin 2, Fin 2.5] \<and>
   decodeSeat (dates (encodeStateOddsColumnar sampleOdds))
     (snd (states (encodeStateOddsColumnar sampleOdds) ! 0)) = Some (snd (sampleOdds ! 0)) \<and>
   decodeSeat (dates (encodeStateOddsColumnar sampleOdds))
     (snd (states (encodeStateOddsColumnar sampleOdds) ! 1)) = Some (snd (sampleOdds ! 1))"
proof -
  have l: "length sampleOdds = 2" by (simp add: sampleOdds_def)
  from columnar_roundtrip [of sampleOdds] l
  have "decodeSeat (dates (encodeStateOddsColumnar sampleOdds))
     (snd (states (encodeStateOddsColumnar sampleOdds) ! 0)) = Some (snd (sampleOdds ! 0))"
    and "decodeSeat (dates (encodeStateOddsColumnar sampleOdds))
     (snd (states (encodeStateOddsColumnar sampleOdds) ! 1)) = Some (snd (sampleOdds ! 1))"
    by simp_all
  then show ?thesis by (simp add: sampleOdds_encoded)
qed

section \<open>The house margins of the time series\<close>

text \<open>
  The static ratio arrays of \<^verbatim>\<open>runOddsOverTimeHouse\<close>, plain arrays with one entry per
  key: the ratio of the key, 1 where it is missing or not finite.
\<close>

definition houseRatioD :: "globals \<Rightarrow> jsnum list" where
  "houseRatioD g =
     map (\<lambda>k. case map_of (ratios (DATA g House)) k of
                Some rr \<Rightarrow> if isFinite (D rr) then D rr else Fin 1
              | None \<Rightarrow> Fin 1)
       (ratioKeys g House)"

definition houseRatioR :: "globals \<Rightarrow> jsnum list" where
  "houseRatioR g =
     map (\<lambda>k. case map_of (ratios (DATA g House)) k of
                Some rr \<Rightarrow> if isFinite (R rr) then R rr else Fin 1
              | None \<Rightarrow> Fin 1)
       (ratioKeys g House)"

text \<open>
  The margins of one day of the series, a \<^verbatim>\<open>Float32Array\<close> of \<^verbatim>\<open>seatTotal\<close> entries, from
  the generic-ballot shares \<^verbatim>\<open>d0\<close> and \<^verbatim>\<open>r0\<close> of the day:
  \<^verbatim>\<open>den > 0 ? 100 * (r0 * b - d0 * a) / den : 0\<close>, and 0 beyond the keys.
\<close>

definition houseDayMargins :: "globals \<Rightarrow> jsnum \<Rightarrow> jsnum \<Rightarrow> jsnum list" where
  "houseDayMargins g d0 r0 =
     map (\<lambda>k. if k < length (houseRatioD g)
               then (let a = houseRatioD g ! k;
                         b = houseRatioR g ! k;
                         den = jsadd (jsmul d0 a) (jsmul r0 b)
                     in toFloat32
                          (if jslt (Fin 0) den
                           then jsdiv (jsmul (Fin 100) (jssub (jsmul r0 b) (jsmul d0 a))) den
                           else Fin 0))
               else Fin 0)
       [0..<nat (total (SEAT_RULES House))]"

text \<open>
  The globals with the house poll inputs replaced: the poll table \<^verbatim>\<open>DATA.house.polls\<close> and
  the dated polls \<^verbatim>\<open>STATE_POLL_DATA.house\<close>.
\<close>

definition withHousePolls ::
  "globals \<Rightarrow> (string \<rightharpoonup> poll) \<Rightarrow> (string \<rightharpoonup> statePoll list) \<Rightarrow> globals" where
  "withHousePolls g ps sp =
     g\<lparr>DATA := (DATA g)(House := (DATA g House)\<lparr>polls := ps\<rparr>),
       STATE_POLL_DATA := (STATE_POLL_DATA g)(House := sp)\<rparr>"

lemma withHousePolls_gb: "gb (DATA (withHousePolls g ps sp) m) = gb (DATA g m)"
  by (simp add: withHousePolls_def)

lemma withHousePolls_ratios: "ratios (DATA (withHousePolls g ps sp) m) = ratios (DATA g m)"
  by (simp add: withHousePolls_def)

lemma getHouseModel_polls: "getHouseModel (withHousePolls g ps sp) did = getHouseModel g did"
  unfolding getHouseModel_def withHousePolls_gb withHousePolls_ratios by (rule refl)

lemma ratioKeys_polls: "ratioKeys (withHousePolls g ps sp) m = ratioKeys g m"
  by (simp add: ratioKeys_def withHousePolls_ratios)

lemma baselineMargins_house_polls:
  "baselineMargins (withHousePolls g ps sp) House ind' = baselineMargins g House ind"
  unfolding baselineMargins_def getModel_def ratioKeys_polls getHouseModel_polls chamber.case
  by (rule refl)

lemma houseDayMargins_polls:
  "houseDayMargins (withHousePolls g ps sp) d0 r0 = houseDayMargins g d0 r0"
  unfolding houseDayMargins_def houseRatioD_def houseRatioR_def ratioKeys_polls
    withHousePolls_ratios
  by (rule refl)

text \<open>
  C10. Replacing the house poll inputs (the per-district poll table and the dated house
  polls) by any others, and the indicator by any other, changes nothing in the house
  model: the result of \<open>getHouseModel\<close> for every district (combined pair and win
  probability, and with the pair its margin), the baseline margins and the whole result
  of the house simulation on the same draws, and the margins of every day of the house
  time series.
\<close>

theorem house_independent_of_polls:
  "getHouseModel (withHousePolls g ps sp) did = getHouseModel g did \<and>
   getModel (withHousePolls g ps sp) House ind' did = getModel g House ind did \<and>
   marginRD (combinedPair (the (getHouseModel (withHousePolls g ps sp) did)))
     = marginRD (combinedPair (the (getHouseModel g did))) \<and>
   baselineMargins (withHousePolls g ps sp) House ind' = baselineMargins g House ind \<and>
   runHouseSimulation (withHousePolls g ps sp) rnd = runHouseSimulation g rnd \<and>
   houseDayMargins (withHousePolls g ps sp) d0 r0 = houseDayMargins g d0 r0"
  by (simp add: getHouseModel_polls getModel_def runHouseSimulation_def runSimulation_def
      baselineMargins_house_polls [of g ps sp None None] baselineMargins_house_polls
      houseDayMargins_polls)

text \<open>
  One district with the ratios 1 and 1 under the generic ballot 50 and 50, with and
  without a poll of 60 to 40 for the district.
\<close>

definition houseData :: globals where
  "houseData =
     \<lparr>DATA = (\<lambda>m. \<lparr>gb = Some \<lparr>D = Fin 50, R = Fin 50\<rparr>,
                    ratios = (if m = House then [(''CA-01'', \<lparr>D = Fin 1, R = Fin 1\<rparr>)] else []),
                    polls = Map.empty\<rparr>),
      STATE_POLL_DATA = (\<lambda>m. Map.empty)\<rparr>"

definition housePolls :: "string \<rightharpoonup> poll" where
  "housePolls = [''CA-01'' \<mapsto> \<lparr>D = Fin 60, R = Fin 40, S = Fin 3\<rparr>]"

theorem house_independent_of_polls_witness:
  "polls (DATA (withHousePolls houseData housePolls Map.empty) House) ''CA-01''
     \<noteq> polls (DATA houseData House) ''CA-01'' \<and>
   getHouseModel (withHousePolls houseData housePolls Map.empty) ''CA-01''
     = getHouseModel houseData ''CA-01'' \<and>
   combinedPair (the (getHouseModel houseData ''CA-01'')) = \<lparr>D = Fin 50, R = Fin 50\<rparr> \<and>
   runHouseSimulation (withHousePolls houseData housePolls Map.empty) (\<lambda>i. 1 / 2)
     = runHouseSimulation houseData (\<lambda>i. 1 / 2)"
proof -
  have a: "polls (DATA (withHousePolls houseData housePolls Map.empty) House) ''CA-01''
     \<noteq> polls (DATA houseData House) ''CA-01''"
    by (simp add: withHousePolls_def houseData_def housePolls_def)
  have b: "combinedPair (the (getHouseModel houseData ''CA-01'')) = \<lparr>D = Fin 50, R = Fin 50\<rparr>"
    by (simp add: houseData_def getHouseModel_def computeGenericBallotState_def
        normalizePair_def Let_def)
  show ?thesis
    using house_independent_of_polls
      [of houseData housePolls Map.empty "''CA-01''" None None "\<lambda>i. 1 / 2"] a b
    by blast
qed

end
